theory Spec2Isabelle
  imports Complex_Main "HOL-Library.Word" "HOL-Library.Multiset" "HOL-Library.Sublist"
begin

section \<open>Data model\<close>

text \<open>
  A JavaScript string is a sequence of UTF-16 code units; \<open>length\<close> counts code units and
  the regular expressions of \<open>vectorUtils.ts\<close> (no \<open>u\<close> flag) match code unit by code unit.
  A JavaScript \<open>number\<close> is modelled as an \<open>int\<close> where the program uses it as a size,
  an index or a clock reading, and as a \<open>real\<close> where it is a vector component or a
  similarity score (IEEE rounding, infinities and NaN are outside the model).
\<close>

type_synonym code_unit = "16 word"
type_synonym jsstring = "code_unit list"

text \<open>\<open>Omit<DocumentChunk, 'embedding'>\<close> and \<open>DocumentChunk\<close> of \<open>types.ts\<close>.\<close>

record Chunk =
  id_chunk :: jsstring
  sourceFile :: jsstring
  content :: jsstring

record DocumentChunk = Chunk +
  embedding :: "real list"

text \<open>The object literal \<open>{ chunk, score }\<close> built by \<open>findRelevantChunks\<close>.\<close>

record ScoredChunk =
  chunk :: DocumentChunk
  score :: real

text \<open>\<open>throw new Error("Vectors must have the same length")\<close>.\<close>

datatype error = DimensionMismatch

section \<open>Built-in operations of the language\<close>

text \<open>
  \<open>Array.prototype.slice\<close> and \<open>String.prototype.slice\<close>: a negative bound counts from
  the end, both bounds are clamped to the length.
\<close>

definition js_slice :: "'a list \<Rightarrow> int \<Rightarrow> int \<Rightarrow> 'a list" where
  "js_slice xs start fin =
     (let len = int (length xs);
          from = (if start < 0 then max (len + start) 0 else min start len);
          to = (if fin < 0 then max (len + fin) 0 else min fin len)
      in take (nat (to - from)) (drop (nat from) xs))"

text \<open>
  \<open>Array.prototype.sort\<close> with a comparator: a stable sort (ECMAScript 2019), here
  insertion of each element in front of the elements to its right. An element goes before
  \<open>y\<close> when the comparator does not put it after \<open>y\<close>.
\<close>

fun js_insert :: "('a \<Rightarrow> 'a \<Rightarrow> real) \<Rightarrow> 'a \<Rightarrow> 'a list \<Rightarrow> 'a list" where
  "js_insert cmp x [] = [x]"
| "js_insert cmp x (y # ys) = (if cmp x y \<le> 0 then x # y # ys else y # js_insert cmp x ys)"

definition js_sort :: "('a \<Rightarrow> 'a \<Rightarrow> real) \<Rightarrow> 'a list \<Rightarrow> 'a list" where
  "js_sort cmp xs = foldr (js_insert cmp) xs []"

section \<open>The retriever\<close>

text \<open>The \<open>for\<close> loop of \<open>cosineSimilarity\<close>: the state is (dotProduct, normA, normB).\<close>

definition cosineLoop :: "real list \<Rightarrow> real list \<Rightarrow> real \<times> real \<times> real" where
  "cosineLoop vecA vecB =
     foldl (\<lambda>(dotProduct, normA, normB) i.
              (dotProduct + vecA ! i * vecB ! i,
               normA + vecA ! i * vecA ! i,
               normB + vecB ! i * vecB ! i))
           (0, 0, 0) [0..<length vecA]"

definition cosineSimilarity :: "real list \<Rightarrow> real list \<Rightarrow> error + real" where
  "cosineSimilarity vecA vecB =
     (if length vecA \<noteq> length vecB then Inl DimensionMismatch
      else case cosineLoop vecA vecB of (dotProduct, normA, normB) \<Rightarrow>
        if normA = 0 \<or> normB = 0 then Inr 0
        else Inr (dotProduct / (sqrt normA * sqrt normB)))"

text \<open>
  \<open>chunks.map(chunk => ({ chunk, score: cosineSimilarity(queryEmbedding, chunk.embedding) }))\<close>:
  an exception thrown by the callback leaves \<open>map\<close> and \<open>findRelevantChunks\<close>.
\<close>

fun scoreChunks :: "real list \<Rightarrow> DocumentChunk list \<Rightarrow> error + ScoredChunk list" where
  "scoreChunks queryEmbedding [] = Inr []"
| "scoreChunks queryEmbedding (c # cs) =
     (case cosineSimilarity queryEmbedding (embedding c) of
        Inl e \<Rightarrow> Inl e
      | Inr s \<Rightarrow>
          (case scoreChunks queryEmbedding cs of
             Inl e \<Rightarrow> Inl e
           | Inr rest \<Rightarrow> Inr (\<lparr>chunk = c, score = s\<rparr> # rest)))"

definition findRelevantChunks ::
  "real list \<Rightarrow> DocumentChunk list \<Rightarrow> int \<Rightarrow> error + DocumentChunk list" where
  "findRelevantChunks queryEmbedding chunks topK =
     (case scoreChunks queryEmbedding chunks of
        Inl e \<Rightarrow> Inl e
      | Inr scoredChunks \<Rightarrow>
          Inr (map chunk (js_slice (js_sort (\<lambda>a b. score b - score a) scoredChunks) 0 topK)))"

text \<open>The score the retriever gives a chunk, for stating the ranking.\<close>

definition scoreOf :: "real list \<Rightarrow> DocumentChunk \<Rightarrow> real" where
  "scoreOf queryEmbedding c =
     (case cosineSimilarity queryEmbedding (embedding c) of Inl e \<Rightarrow> 0 | Inr s \<Rightarrow> s)"

section \<open>The chunker\<close>

text \<open>A string literal of the source, as its code units (ASCII).\<close>

definition ascii :: "string \<Rightarrow> jsstring" where
  "ascii s = map of_char s"

text \<open>
  The class \<open>\s\<close> of a regular expression, which is also what \<open>trim\<close> strips: the
  white space and line terminator code points of ECMAScript.
\<close>

definition is_ws :: "code_unit \<Rightarrow> bool" where
  "is_ws c \<longleftrightarrow>
     c = 9 \<or> c = 10 \<or> c = 11 \<or> c = 12 \<or> c = 13 \<or> c = 32 \<or> c = 160 \<or> c = 5760
     \<or> (8192 \<le> c \<and> c \<le> 8202) \<or> c = 8232 \<or> c = 8233 \<or> c = 8239 \<or> c = 8287
     \<or> c = 12288 \<or> c = 65279"

text \<open>The class \<open>[.!?]\<close>.\<close>

definition is_terminator :: "code_unit \<Rightarrow> bool" where
  "is_terminator c \<longleftrightarrow> c = 46 \<or> c = 33 \<or> c = 63"

definition js_trim :: "jsstring \<Rightarrow> jsstring" where
  "js_trim s = rev (dropWhile is_ws (rev (dropWhile is_ws s)))"

text \<open>\<open>Array.prototype.join\<close>.\<close>

fun js_join :: "jsstring \<Rightarrow> jsstring list \<Rightarrow> jsstring" where
  "js_join sep [] = []"
| "js_join sep [x] = x"
| "js_join sep (x # y # ys) = x @ sep @ js_join sep (y # ys)"

text \<open>Template literals print a number in decimal.\<close>

fun show_nat :: "nat \<Rightarrow> jsstring" where
  "show_nat n = (if n < 10 then [of_nat (48 + n)] else show_nat (n div 10) @ [of_nat (48 + n mod 10)])"

declare show_nat.simps [simp del]

definition show_int :: "int \<Rightarrow> jsstring" where
  "show_int i = (if i < 0 then 45 # show_nat (nat (- i)) else show_nat (nat i))"

text \<open>\<open>str.replace(/\r\n/g, '\n')\<close>.\<close>

fun normalizeNewlines :: "jsstring \<Rightarrow> jsstring" where
  "normalizeNewlines (a # b # cs) =
     (if a = 13 \<and> b = 10 then 10 # normalizeNewlines cs else a # normalizeNewlines (b # cs))"
| "normalizeNewlines cs = cs"

text \<open>
  A match of \<open>/\n\s*\n/\<close> at the start of a string, as the length of the match: a line
  feed, then the white space that follows up to its last line feed (\<open>\s*\<close> is greedy and
  gives back until a line feed follows).
\<close>

definition blankLineAt :: "jsstring \<Rightarrow> nat option" where
  "blankLineAt s =
     (case s of
        [] \<Rightarrow> None
      | c # cs \<Rightarrow>
          if c \<noteq> 10 then None
          else let run = takeWhile is_ws cs in
            if 10 \<in> set run
            then Some (1 + (length run - length (takeWhile (\<lambda>x. x \<noteq> 10) (rev run))))
            else None)"

text \<open>\<open>normalized.split(/\n\s*\n/)\<close>; \<open>cur\<close> is the piece read so far.\<close>

function splitParagraphs :: "jsstring \<Rightarrow> jsstring \<Rightarrow> jsstring list" where
  "splitParagraphs cur [] = [cur]"
| "splitParagraphs cur (c # cs) =
     (case blankLineAt (c # cs) of
        Some n \<Rightarrow> cur # splitParagraphs [] (drop n (c # cs))
      | None \<Rightarrow> splitParagraphs (cur @ [c]) cs)"
  by pat_completeness auto
termination
proof (relation "measure (\<lambda>(cur, s). length s)")
  have positive: "0 < n" if "blankLineAt s = Some n" for s n
    using that unfolding blankLineAt_def Let_def by (auto split: list.splits if_splits)
  fix cur :: jsstring and c :: code_unit and cs :: jsstring and n :: nat
  assume "blankLineAt (c # cs) = Some n"
  then have "0 < n"
    by (rule positive)
  then show "(([], drop n (c # cs)), (cur, c # cs)) \<in> measure (\<lambda>(cur, s). length s)"
    by simp
qed simp_all

text \<open>\<open>p.replace(/\s+/g, ' ')\<close>.\<close>

function collapseSpaces :: "jsstring \<Rightarrow> jsstring" where
  "collapseSpaces [] = []"
| "collapseSpaces (c # cs) =
     (if is_ws c then 32 # collapseSpaces (dropWhile is_ws cs) else c # collapseSpaces cs)"
  by pat_completeness auto
termination
  by (relation "measure length") (auto simp: less_Suc_eq_le length_dropWhile_le)

text \<open>
  A match of \<open>/[^.!?]+[.!?]+(\s+|$)|[^.!?]+$/\<close> at the start of a string. Both
  alternatives begin with the longest run of characters other than \<open>. ! ?\<close>; a shorter run
  is followed by a character that is not a terminator, so giving back never helps. The first
  alternative then takes the longest run of terminators, and needs white space or the end of
  the string after it (a shorter run of terminators is followed by a terminator). The second
  alternative needs the first run to reach the end of the string.
\<close>

definition sentenceAt :: "jsstring \<Rightarrow> jsstring option" where
  "sentenceAt s =
     (let body = takeWhile (\<lambda>c. \<not> is_terminator c) s;
          r1 = dropWhile (\<lambda>c. \<not> is_terminator c) s;
          marks = takeWhile is_terminator r1;
          r2 = dropWhile is_terminator r1;
          spaces = takeWhile is_ws r2
      in if body = [] then None
         else if marks \<noteq> [] \<and> spaces \<noteq> [] then Some (body @ marks @ spaces)
         else if marks \<noteq> [] \<and> r2 = [] then Some (body @ marks)
         else if r1 = [] then Some body
         else None)"

text \<open>
  All matches of the global regular expression, left to right: the search resumes at the
  end of a match, and one position further where there is none.
\<close>

function matchAll :: "jsstring \<Rightarrow> jsstring list" where
  "matchAll [] = []"
| "matchAll (c # cs) =
     (case sentenceAt (c # cs) of
        Some m \<Rightarrow> m # matchAll (drop (length m) (c # cs))
      | None \<Rightarrow> matchAll cs)"
  by pat_completeness auto
termination
proof (relation "measure length")
  have nonempty: "m \<noteq> []" if "sentenceAt s = Some m" for s m
  proof -
    define body where "body = takeWhile (\<lambda>c. \<not> is_terminator c) s"
    define r1 where "r1 = dropWhile (\<lambda>c. \<not> is_terminator c) s"
    define marks where "marks = takeWhile is_terminator r1"
    define r2 where "r2 = dropWhile is_terminator r1"
    define spaces where "spaces = takeWhile is_ws r2"
    have "sentenceAt s =
       (if body = [] then None
        else if marks \<noteq> [] \<and> spaces \<noteq> [] then Some (body @ marks @ spaces)
        else if marks \<noteq> [] \<and> r2 = [] then Some (body @ marks)
        else if r1 = [] then Some body
        else None)"
      unfolding sentenceAt_def body_def r1_def marks_def r2_def spaces_def Let_def ..
    with that show ?thesis
      by (auto split: if_splits)
  qed
  fix c :: code_unit and cs :: jsstring and m :: jsstring
  assume "sentenceAt (c # cs) = Some m"
  then have "m \<noteq> []"
    by (rule nonempty)
  then show "(drop (length m) (c # cs), c # cs) \<in> measure length"
    by simp
qed simp_all

text \<open>\<open>String.prototype.match\<close> with the \<open>g\<close> flag is \<open>null\<close> when nothing matches.\<close>

definition matchSentences :: "jsstring \<Rightarrow> jsstring list option" where
  "matchSentences s = (case matchAll s of [] \<Rightarrow> None | m # ms \<Rightarrow> Some (m # ms))"

text \<open>
  The hard split of a long sentence:
  \<open>while (i < trimmedS.length) { units.push(trimmedS.slice(i, i + chunkSize)); i += chunkSize; }\<close>.
  The loop does not end when \<open>chunkSize \<le> 0\<close>, which is the value \<open>None\<close>.
\<close>

partial_function (option) hardSplit ::
  "int \<Rightarrow> jsstring \<Rightarrow> int \<Rightarrow> jsstring list \<Rightarrow> jsstring list option" where
  "hardSplit chunkSize trimmedS i units =
     (if i < int (length trimmedS)
      then hardSplit chunkSize trimmedS (i + chunkSize) (units @ [js_slice trimmedS i (i + chunkSize)])
      else Some units)"

fun sentencesLoop :: "int \<Rightarrow> jsstring list \<Rightarrow> jsstring list \<Rightarrow> jsstring list option" where
  "sentencesLoop chunkSize [] units = Some units"
| "sentencesLoop chunkSize (s # ss) units =
     (let trimmedS = js_trim s in
      if trimmedS \<noteq> [] then
        (if int (length trimmedS) > chunkSize then
           (case hardSplit chunkSize trimmedS 0 units of
              None \<Rightarrow> None
            | Some units' \<Rightarrow> sentencesLoop chunkSize ss units')
         else sentencesLoop chunkSize ss (units @ [trimmedS]))
      else sentencesLoop chunkSize ss units)"

text \<open>
  The loop over the paragraphs. \<open>trimmedP.length < chunkSize * 0.5\<close> is
  \<open>2 * length < chunkSize\<close> on integers.
\<close>

fun paragraphsLoop :: "int \<Rightarrow> jsstring list \<Rightarrow> jsstring list \<Rightarrow> jsstring list option" where
  "paragraphsLoop chunkSize [] units = Some units"
| "paragraphsLoop chunkSize (p # ps) units =
     (let trimmedP = js_trim (collapseSpaces p) in
      if trimmedP = [] then paragraphsLoop chunkSize ps units
      else if 2 * int (length trimmedP) < chunkSize then paragraphsLoop chunkSize ps (units @ [trimmedP])
      else
        (case matchSentences trimmedP of
           Some sentences \<Rightarrow>
             (case sentencesLoop chunkSize sentences units of
                None \<Rightarrow> None
              | Some units' \<Rightarrow> paragraphsLoop chunkSize ps units')
         | None \<Rightarrow> paragraphsLoop chunkSize ps (units @ [trimmedP])))"

definition splitIntoUnits :: "int \<Rightarrow> jsstring \<Rightarrow> jsstring list option" where
  "splitIntoUnits chunkSize str =
     (let normalized = normalizeNewlines str;
          paragraphs = splitParagraphs [] normalized
      in paragraphsLoop chunkSize paragraphs [])"

text \<open>
  The state of the packing loop. \<open>Date.now()\<close> is read once for each chunk pushed: \<open>now n\<close>
  is the reading of the \<open>n\<close>-th call of a run, and \<open>clockCalls\<close> counts the calls made.
\<close>

record PackState =
  chunks :: "Chunk list"
  currentChunkUnits :: "jsstring list"
  currentChunkLength :: int
  clockCalls :: nat

definition pushChunk :: "(nat \<Rightarrow> int) \<Rightarrow> jsstring \<Rightarrow> PackState \<Rightarrow> PackState" where
  "pushChunk now srcFile st =
     st\<lparr>chunks := chunks st @
            [\<lparr>id_chunk = srcFile @ [45] @ show_nat (length (chunks st)) @ [45]
                          @ show_int (now (clockCalls st)),
              sourceFile = srcFile,
              content = js_join [32] (currentChunkUnits st)\<rparr>],
        clockCalls := Suc (clockCalls st)\<rparr>"

text \<open>
  The backward loop over the units of the chunk just closed; the first argument after
  \<open>overlap\<close> is what is left of them, last unit first.
\<close>

fun overlapLoop :: "int \<Rightarrow> jsstring list \<Rightarrow> jsstring list \<Rightarrow> int \<Rightarrow> jsstring list \<times> int" where
  "overlapLoop overlap [] overlapUnits overlapCurrentLength = (overlapUnits, overlapCurrentLength)"
| "overlapLoop overlap (u # rest) overlapUnits overlapCurrentLength =
     (if overlapCurrentLength + int (length u) > overlap then (overlapUnits, overlapCurrentLength)
      else overlapLoop overlap rest (u # overlapUnits) (overlapCurrentLength + int (length u) + 1))"

definition packStep ::
  "(nat \<Rightarrow> int) \<Rightarrow> jsstring \<Rightarrow> int \<Rightarrow> int \<Rightarrow> PackState \<Rightarrow> jsstring \<Rightarrow> PackState" where
  "packStep now srcFile chunkSize overlap st unit =
     (let unitLength = int (length unit) in
      if currentChunkLength st + unitLength + 1 > chunkSize \<and> length (currentChunkUnits st) > 0
      then
        (case overlapLoop overlap (rev (currentChunkUnits st)) [] 0 of
           (overlapUnits, overlapCurrentLength) \<Rightarrow>
             (pushChunk now srcFile st)
               \<lparr>currentChunkUnits := overlapUnits @ [unit],
                currentChunkLength := overlapCurrentLength + unitLength + 1\<rparr>)
      else st\<lparr>currentChunkUnits := currentChunkUnits st @ [unit],
              currentChunkLength := currentChunkLength st + unitLength + 1\<rparr>)"

text \<open>The state before the first unit: no chunk, no unit, length 0.\<close>

definition initialState :: PackState where
  "initialState = \<lparr>chunks = [], currentChunkUnits = [], currentChunkLength = 0, clockCalls = 0\<rparr>"

text \<open>After the last unit, the units that remain are pushed as the last chunk.\<close>

definition finish :: "(nat \<Rightarrow> int) \<Rightarrow> jsstring \<Rightarrow> PackState \<Rightarrow> Chunk list" where
  "finish now srcFile st =
     chunks (if length (currentChunkUnits st) > 0 then pushChunk now srcFile st else st)"

text \<open>
  \<open>chunkText\<close>. The guard \<open>!text || text.trim().length === 0\<close> returns the empty
  sequence. The result is \<open>None\<close> when the hard split does not end.
\<close>

definition chunkText ::
  "(nat \<Rightarrow> int) \<Rightarrow> jsstring \<Rightarrow> jsstring \<Rightarrow> int \<Rightarrow> int \<Rightarrow> Chunk list option" where
  "chunkText now text srcFile chunkSize overlap =
     (if text = [] \<or> length (js_trim text) = 0 then Some []
      else
        (case splitIntoUnits chunkSize text of
           None \<Rightarrow> None
         | Some units \<Rightarrow>
             Some (finish now srcFile
                     (foldl (packStep now srcFile chunkSize overlap) initialState units))))"

section \<open>Notions used to state and prove the properties\<close>

text \<open>The length the packing loop keeps for a list of units: each unit and one separator.\<close>

definition unitsLength :: "jsstring list \<Rightarrow> int" where
  "unitsLength us = (\<Sum>u\<leftarrow>us. int (length u) + 1)"

text \<open>The overlap prefix that the backward loop selects from the units of a closed chunk.\<close>

definition overlapUnits :: "int \<Rightarrow> jsstring list \<Rightarrow> jsstring list" where
  "overlapUnits overlap us = fst (overlapLoop overlap (rev us) [] 0)"

text \<open>A unit is not empty, and it fits the chunk size unless it is made of terminators only.\<close>

definition unitOk :: "int \<Rightarrow> jsstring \<Rightarrow> bool" where
  "unitOk cs u \<longleftrightarrow> u \<noteq> [] \<and> (int (length u) \<le> cs \<or> list_all is_terminator u)"

text \<open>Invariants of the packing loop.\<close>

definition idInv :: "(nat \<Rightarrow> int) \<Rightarrow> jsstring \<Rightarrow> PackState \<Rightarrow> bool" where
  "idInv now srcFile st \<longleftrightarrow>
     clockCalls st = length (chunks st) \<and>
     (\<forall>i<length (chunks st).
        id_chunk (chunks st ! i) = srcFile @ [45] @ show_nat i @ [45] @ show_int (now i) \<and>
        sourceFile (chunks st ! i) = srcFile)"

definition shape :: "PackState \<Rightarrow> jsstring list \<times> jsstring list \<times> int" where
  "shape st = (map content (chunks st), currentChunkUnits st, currentChunkLength st)"

text \<open>
  The units of a chunk fit: with their separators they stay within the chunk size, or they
  are a non-empty overlap prefix, itself within the overlap, and one more unit.
\<close>

definition fits :: "int \<Rightarrow> int \<Rightarrow> jsstring list \<Rightarrow> bool" where
  "fits chunkSize overlap g \<longleftrightarrow>
     unitsLength g \<le> chunkSize + 1
     \<or> (\<exists>p u. g = p @ [u] \<and> p \<noteq> [] \<and> unitsLength p \<le> overlap + 1)"

text \<open>The same for the content of a chunk, the units joined by single spaces.\<close>

definition chunkFits :: "int \<Rightarrow> int \<Rightarrow> jsstring list \<Rightarrow> jsstring \<Rightarrow> bool" where
  "chunkFits chunkSize overlap units s \<longleftrightarrow>
     int (length s) \<le> chunkSize
     \<or> (\<exists>pre u. s = pre @ [32] @ u \<and> pre \<noteq> [] \<and> int (length pre) \<le> overlap \<and> u \<in> set units)"

definition fitInv :: "int \<Rightarrow> int \<Rightarrow> jsstring list \<Rightarrow> PackState \<Rightarrow> bool" where
  "fitInv chunkSize overlap units st \<longleftrightarrow>
     currentChunkLength st = unitsLength (currentChunkUnits st) \<and>
     fits chunkSize overlap (currentChunkUnits st) \<and>
     set (currentChunkUnits st) \<subseteq> set units \<and>
     (\<forall>c\<in>set (chunks st). chunkFits chunkSize overlap units (content c))"

definition overlapInv :: "int \<Rightarrow> jsstring list \<Rightarrow> jsstring list list \<Rightarrow> PackState \<Rightarrow> bool" where
  "overlapInv overlap units gs st \<longleftrightarrow>
     map content (chunks st) = map (js_join [32]) gs \<and>
     (\<forall>g\<in>set gs. g \<noteq> [] \<and> set g \<subseteq> set units) \<and>
     set (currentChunkUnits st) \<subseteq> set units \<and>
     successively (\<lambda>g h. \<exists>rest. rest \<noteq> [] \<and> h = overlapUnits overlap g @ rest)
       (gs @ [currentChunkUnits st])"

text \<open>
  Two strings share an overlap of at most \<open>overlap\<close> characters: for some
  \<open>k\<close> from 1 to \<open>overlap\<close>, the last \<open>k\<close> characters of the first are the first
  \<open>k\<close> characters of the second.
\<close>

definition sharesOverlap :: "int \<Rightarrow> jsstring \<Rightarrow> jsstring \<Rightarrow> bool" where
  "sharesOverlap overlap a b \<longleftrightarrow>
     list_ex (\<lambda>k. k \<le> length a \<and> k \<le> length b \<and> drop (length a - k) a = take k b)
       [1..<Suc (nat overlap)]"

text \<open>
  The characters of the text that are not white space occur, in their order, in the
  concatenation of the contents of the chunks.
\<close>

definition keepsVisibleText :: "jsstring \<Rightarrow> Chunk list \<Rightarrow> bool" where
  "keepsVisibleText text r \<longleftrightarrow>
     subseq (filter (\<lambda>c. \<not> is_ws c) text) (concat (map content r))"

section \<open>Example inputs\<close>

text \<open>A knowledge base of three chunks; the first and the third score alike against \<open>[1, 0]\<close>.\<close>

definition kb :: "DocumentChunk list" where
  "kb = [\<lparr>id_chunk = [97], sourceFile = [100], content = [120], embedding = [1, 0]\<rparr>,
         \<lparr>id_chunk = [98], sourceFile = [100], content = [121], embedding = [0, 1]\<rparr>,
         \<lparr>id_chunk = [99], sourceFile = [100], content = [122], embedding = [2, 0]\<rparr>]"

text \<open>Two clocks, one millisecond apart.\<close>

definition clockA :: "nat \<Rightarrow> int" where
  "clockA n = 1700000000000"

definition clockB :: "nat \<Rightarrow> int" where
  "clockB n = 1700000000001"

text \<open>The definitions to unfold when a concrete input is evaluated.\<close>

lemmas retriever_eval = findRelevantChunks_def cosineSimilarity_def cosineLoop_def js_sort_def js_slice_def

lemmas chunker_eval = chunkText_def initialState_def finish_def splitIntoUnits_def packStep_def
  pushChunk_def js_trim_def
  blankLineAt_def sentenceAt_def matchSentences_def show_int_def show_nat.simps
  hardSplit.simps js_slice_def ascii_def is_ws_def is_terminator_def Let_def

section \<open>Properties of the retriever\<close>

subsection \<open>The similarity function\<close>




lemma sum_squares_zero_iff:
  "sum_list (map (\<lambda>x. x * x) (v :: real list)) = 0 \<longleftrightarrow> (\<forall>x\<in>set v. x = 0)"
proof (induction v)
  case Nil
  then show ?case by simp
next
  case (Cons a v)
  have nn: "0 \<le> sum_list (map (\<lambda>x. x * x) v)"
    by (rule sum_list_nonneg) auto
  have "a * a + sum_list (map (\<lambda>x. x * x) v) = 0 \<longleftrightarrow> a * a = 0 \<and> sum_list (map (\<lambda>x. x * x) v) = 0"
    using nn by (simp add: add_nonneg_eq_0_iff)
  with Cons show ?case by simp
qed

text \<open>
  Claim C6. \<open>cosineSimilarity\<close> fails with the dimension-mismatch error exactly when the two
  vectors differ in length; it then yields no number, and the error leaves
  \<open>findRelevantChunks\<close> as it is when any chunk of the base has an embedding whose length
  differs from the query's.
\<close>

theorem cosineSimilarity_mismatch_iff:
  "(cosineSimilarity vecA vecB = Inl DimensionMismatch \<longleftrightarrow> length vecA \<noteq> length vecB)
   \<and> (length vecA \<noteq> length vecB \<longrightarrow> (\<forall>x. cosineSimilarity vecA vecB \<noteq> Inr x))
   \<and> ((\<exists>c\<in>set base. length (embedding c) \<noteq> length vecA) \<longrightarrow>
        findRelevantChunks vecA base k = Inl DimensionMismatch)"
proof -
  have a: "cosineSimilarity vecA vecB = Inl DimensionMismatch \<longleftrightarrow> length vecA \<noteq> length vecB"
    by (simp add: cosineSimilarity_def split: prod.splits)
  have b: "length vecA \<noteq> length vecB \<longrightarrow> (\<forall>x. cosineSimilarity vecA vecB \<noteq> Inr x)"
    by (simp add: cosineSimilarity_def)
  have c: "(\<exists>c\<in>set base. length (embedding c) \<noteq> length vecA) \<Longrightarrow>
        scoreChunks vecA base = Inl DimensionMismatch"
  proof (induction base)
    case Nil
    then show ?case by simp
  next
    case (Cons d base)
    show ?case
    proof (cases "cosineSimilarity vecA (embedding d)")
      case (Inl e)
      then show ?thesis by (cases e) simp
    next
      case (Inr s)
      then have "length (embedding d) = length vecA"
        by (auto simp: cosineSimilarity_def split: if_splits)
      with Cons have "scoreChunks vecA base = Inl DimensionMismatch" by auto
      with Inr show ?thesis by simp
    qed
  qed
  show ?thesis using a b c by (auto simp: findRelevantChunks_def)
qed

theorem cosineSimilarity_mismatch_iff_witness:
  "cosineSimilarity [1, 0] [1] = Inl DimensionMismatch
   \<and> cosineSimilarity [1, 0] [0, 1] = Inr 0
   \<and> findRelevantChunks [1, 0]
        [\<lparr>id_chunk = [], sourceFile = [], content = [], embedding = [1, 0]\<rparr>,
         \<lparr>id_chunk = [], sourceFile = [], content = [], embedding = [1]\<rparr>] 5
      = Inl DimensionMismatch"
  using cosineSimilarity_mismatch_iff [of "[1, 0]" "[1]"
      "[\<lparr>id_chunk = [], sourceFile = [], content = [], embedding = [1, 0]\<rparr>,
        \<lparr>id_chunk = [], sourceFile = [], content = [], embedding = [1]\<rparr>]" 5]
  by (simp add: cosineSimilarity_def cosineLoop_def)



subsection \<open>Ranking\<close>

lemma js_insert_insort_key:
  "js_insert (\<lambda>a b. score b - score a) x ys = insort_key (\<lambda>a. - score a) x ys"
  by (induction ys) simp_all

lemma js_sort_sort_key:
  "js_sort (\<lambda>a b. score b - score a) xs = sort_key (\<lambda>a. - score a) xs"
  by (induction xs) (simp_all add: js_sort_def js_insert_insort_key)

lemma scoreChunks_Inr:
  "scoreChunks q base = Inr sc \<Longrightarrow>
   map chunk sc = base \<and> (\<forall>x\<in>set sc. score x = scoreOf q (chunk x))"
proof (induction base arbitrary: sc)
  case Nil
  then show ?case by simp
next
  case (Cons c base)
  then show ?case
    by (auto simp: scoreOf_def split: sum.splits)
qed



lemma js_slice_mset: "mset (js_slice xs a b) \<subseteq># mset xs"
proof -
  have "mset (take n (drop m xs)) \<subseteq># mset (drop m xs)" for n m
    by (metis append_take_drop_id mset_append mset_subset_eq_add_left)
  moreover have "mset (drop m xs) \<subseteq># mset xs" for m
    by (metis append_take_drop_id mset_append mset_subset_eq_add_right)
  ultimately show ?thesis
    unfolding js_slice_def Let_def by (meson subset_mset.order_trans)
qed

lemma scoreChunks_dims:
  "scoreChunks q base = Inr sc \<Longrightarrow> \<forall>c\<in>set base. length (embedding c) = length q"
proof (induction base arbitrary: sc)
  case Nil
  then show ?case by simp
next
  case (Cons c base)
  then show ?case
    by (auto simp: cosineSimilarity_def split: sum.splits if_splits)
qed

lemma findRelevantChunks_mset:
  assumes "findRelevantChunks q base k = Inr r"
  shows "mset r \<subseteq># mset base"
proof -
  from assms obtain sc where sc: "scoreChunks q base = Inr sc"
    and r: "r = map chunk (js_slice (js_sort (\<lambda>a b. score b - score a) sc) 0 k)"
    by (auto simp: findRelevantChunks_def split: sum.splits)
  have "mset (js_slice (js_sort (\<lambda>a b. score b - score a) sc) 0 k) \<subseteq># mset sc"
    using js_slice_mset [of "js_sort (\<lambda>a b. score b - score a) sc" 0 k]
    by (simp add: js_sort_sort_key)
  then have "mset r \<subseteq># mset (map chunk sc)"
    unfolding r by (simp add: image_mset_subseteq_mono)
  then show ?thesis
    using scoreChunks_Inr [OF sc] by simp
qed

lemma findRelevantChunks_dims:
  assumes "findRelevantChunks q base k = Inr r"
  shows "\<forall>c\<in>set base. length (embedding c) = length q"
  using assms scoreChunks_dims [of q base]
  by (auto simp: findRelevantChunks_def split: sum.splits)

text \<open>
  Claim C3, as amended. \<open>findRelevantChunks\<close> returns \<open>DocumentChunk\<close>s: every element
  of the result is an element of the base as it is stored there, embedding included, and
  that embedding has the dimension of the query. The embedding is not stripped.
\<close>

theorem findRelevantChunks_returns_embedded:
  assumes "findRelevantChunks q base k = Inr r" and "i < length r"
  shows "r ! i \<in> set base \<and> length (embedding (r ! i)) = length q"
proof -
  have "set r \<subseteq> set base"
    using findRelevantChunks_mset [OF assms(1)] set_mset_mono by fastforce
  then have "r ! i \<in> set base"
    using assms(2) by auto
  then show ?thesis
    using findRelevantChunks_dims [OF assms(1)] by simp
qed

theorem findRelevantChunks_returns_embedded_witness:
  "findRelevantChunks [1, 0] kb 2 = Inr [kb ! 0, kb ! 2]
   \<and> [kb ! 0, kb ! 2] ! 1 \<in> set kb
   \<and> length (embedding ([kb ! 0, kb ! 2] ! 1)) = length [1, 0 :: real]"
proof -
  have e: "findRelevantChunks [1, 0] kb 2 = Inr [kb ! 0, kb ! 2]"
    by (simp add: kb_def retriever_eval)
  show ?thesis
    using findRelevantChunks_returns_embedded [OF e, of 1] e by simp
qed

text \<open>
  Claim C3 as stated fails: for a base of one chunk with the embedding \<open>[1, 0]\<close>, the
  element returned still carries the vector \<open>[1, 0]\<close>.
\<close>

theorem findRelevantChunks_embedding_counterexample:
  "findRelevantChunks [1, 0] [kb ! 0] 1 = Inr [kb ! 0] \<and> embedding (kb ! 0) = [1, 0]"
  by (simp add: kb_def retriever_eval)

text \<open>
  Claim C10. Whatever the query, the base and \<open>topK\<close>, every chunk returned by
  \<open>findRelevantChunks\<close> is an element of the base, and no chunk occurs more often in the
  result than in the base.
\<close>

theorem findRelevantChunks_selection:
  assumes "findRelevantChunks q base k = Inr r"
  shows "set r \<subseteq> set base \<and> (\<forall>c. count_list r c \<le> count_list base c)"
proof -
  have sub: "mset r \<subseteq># mset base"
    by (rule findRelevantChunks_mset [OF assms])
  have "count_list r c \<le> count_list base c" for c
    using sub by (simp add: count_mset [symmetric] mset_subset_eq_count del: count_mset)
  moreover have "set r \<subseteq> set base"
    using sub set_mset_mono by fastforce
  ultimately show ?thesis by blast
qed

theorem findRelevantChunks_selection_witness:
  "findRelevantChunks [1, 0] (kb @ kb) 4 = Inr [kb ! 0, kb ! 2, kb ! 0, kb ! 2]
   \<and> count_list [kb ! 0, kb ! 2, kb ! 0, kb ! 2] (kb ! 0) \<le> count_list (kb @ kb) (kb ! 0)"
proof -
  have e: "findRelevantChunks [1, 0] (kb @ kb) 4 = Inr [kb ! 0, kb ! 2, kb ! 0, kb ! 2]"
    by (simp add: kb_def retriever_eval)
  show ?thesis
    using findRelevantChunks_selection [OF e] e by blast
qed



section \<open>Properties of the chunker\<close>

subsection \<open>Joining units and selecting the overlap\<close>

lemma foldl_invariant:
  "P s \<Longrightarrow> (\<And>s x. P s \<Longrightarrow> x \<in> set xs \<Longrightarrow> P (f s x)) \<Longrightarrow> P (foldl f s xs)"
  by (induction xs arbitrary: s) simp_all

lemma unitsLength_simps [simp]:
  "unitsLength [] = 0"
  "unitsLength (u # us) = int (length u) + 1 + unitsLength us"
  "unitsLength (us @ vs) = unitsLength us + unitsLength vs"
  "unitsLength (rev us) = unitsLength us"
  by (simp_all add: unitsLength_def rev_map [symmetric] sum_list_rev)

lemma js_join_length: "us \<noteq> [] \<Longrightarrow> int (length (js_join [32] us)) = unitsLength us - 1"
  by (induction "[32] :: jsstring" us rule: js_join.induct) simp_all

lemma js_join_append:
  "xs \<noteq> [] \<Longrightarrow> ys \<noteq> [] \<Longrightarrow> js_join sep (xs @ ys) = js_join sep xs @ sep @ js_join sep ys"
  by (induction sep xs rule: js_join.induct) (auto simp: neq_Nil_conv)

lemma js_join_prefix: "prefix (js_join sep xs) (js_join sep (xs @ ys))"
proof (cases "xs = [] \<or> ys = []")
  case True
  then show ?thesis by auto
next
  case False
  then show ?thesis by (simp add: js_join_append)
qed

lemma js_join_suffix:
  assumes "suffix ys xs"
  shows "suffix (js_join sep ys) (js_join sep xs)"
proof -
  from assms obtain zs where xs: "xs = zs @ ys" by (auto simp: suffix_def)
  show ?thesis
  proof (cases "zs = [] \<or> ys = []")
    case True
    then show ?thesis using xs by auto
  next
    case False
    then have "js_join sep xs = (js_join sep zs @ sep) @ js_join sep ys"
      using xs by (simp add: js_join_append)
    then show ?thesis
      unfolding suffix_def by blast
  qed
qed

lemma js_join_nonempty:
  "us \<noteq> [] \<Longrightarrow> \<forall>u\<in>set us. u \<noteq> [] \<Longrightarrow> js_join sep us \<noteq> []"
  by (induction sep us rule: js_join.induct) simp_all

lemma overlapLoop_take:
  "\<exists>k. overlapLoop ov rest acc l = (rev (take k rest) @ acc, l + unitsLength (take k rest))"
proof (induction rest arbitrary: acc l)
  case Nil
  then show ?case by simp
next
  case (Cons u rest)
  show ?case
  proof (cases "l + int (length u) > ov")
    case True
    then have "overlapLoop ov (u # rest) acc l = (rev (take 0 (u # rest)) @ acc, l + unitsLength (take 0 (u # rest)))"
      by simp
    then show ?thesis by blast
  next
    case False
    from Cons [of "u # acc" "l + int (length u) + 1"] obtain k where
      "overlapLoop ov rest (u # acc) (l + int (length u) + 1)
        = (rev (take k rest) @ u # acc, l + int (length u) + 1 + unitsLength (take k rest))"
      by blast
    with False have "overlapLoop ov (u # rest) acc l
        = (rev (take (Suc k) (u # rest)) @ acc, l + unitsLength (take (Suc k) (u # rest)))"
      by simp
    then show ?thesis by blast
  qed
qed

lemma overlapLoop_bound:
  "l \<le> ov + 1 \<Longrightarrow> snd (overlapLoop ov rest acc l) \<le> ov + 1"
  by (induction rest arbitrary: acc l) simp_all

lemma overlapUnits_suffix: "suffix (overlapUnits ov us) us"
proof -
  obtain k where "overlapLoop ov (rev us) [] 0 = (rev (take k (rev us)) @ [], 0 + unitsLength (take k (rev us)))"
    using overlapLoop_take by blast
  then have "overlapUnits ov us = drop (length us - k) us"
    by (simp add: overlapUnits_def take_rev)
  then show ?thesis
    by (simp add: suffix_drop)
qed

lemma overlapLoop_length:
  "snd (overlapLoop ov (rev us) [] 0) = unitsLength (overlapUnits ov us)"
proof -
  obtain k where "overlapLoop ov (rev us) [] 0 = (rev (take k (rev us)) @ [], 0 + unitsLength (take k (rev us)))"
    using overlapLoop_take by blast
  then show ?thesis
    by (simp add: overlapUnits_def)
qed

lemma overlapLoop_pair:
  "overlapLoop ov (rev us) [] 0 = (overlapUnits ov us, unitsLength (overlapUnits ov us))"
  using overlapLoop_length [of ov us] by (simp add: overlapUnits_def prod_eq_iff)

lemma overlapUnits_bound: "0 \<le> ov \<Longrightarrow> unitsLength (overlapUnits ov us) \<le> ov + 1"
  using overlapLoop_bound [of 0 ov "rev us" "[]"] by (simp add: overlapLoop_length)

lemma overlapLoop_acc_nonempty: "acc \<noteq> [] \<Longrightarrow> fst (overlapLoop ov rest acc l) \<noteq> []"
  by (induction rest arbitrary: acc l) simp_all

lemma overlapUnits_nonempty:
  "us \<noteq> [] \<Longrightarrow> int (length (last us)) \<le> ov \<Longrightarrow> overlapUnits ov us \<noteq> []"
  by (cases us rule: rev_cases) (simp_all add: overlapUnits_def overlapLoop_acc_nonempty)

lemma overlapUnits_empty:
  "us \<noteq> [] \<Longrightarrow> int (length (last us)) > ov \<Longrightarrow> overlapUnits ov us = []"
  by (cases us rule: rev_cases) (simp_all add: overlapUnits_def)

lemma overlap_text_length:
  assumes "0 \<le> ov"
  shows "int (length (js_join [32] (overlapUnits ov us))) \<le> ov"
proof (cases "overlapUnits ov us = []")
  case True
  then show ?thesis using assms by simp
next
  case False
  then show ?thesis
    using overlapUnits_bound [OF assms, of us] by (simp add: js_join_length)
qed

subsection \<open>The packing loop\<close>

lemma packStep_flush:
  assumes "currentChunkLength st + int (length u) + 1 > cs" and "currentChunkUnits st \<noteq> []"
  shows "packStep now src cs ov st u =
     (pushChunk now src st)
       \<lparr>currentChunkUnits := overlapUnits ov (currentChunkUnits st) @ [u],
        currentChunkLength := unitsLength (overlapUnits ov (currentChunkUnits st)) + int (length u) + 1\<rparr>"
  using assms by (simp add: packStep_def overlapLoop_pair)

lemma packStep_keep:
  assumes "\<not> (currentChunkLength st + int (length u) + 1 > cs \<and> currentChunkUnits st \<noteq> [])"
  shows "packStep now src cs ov st u =
     st\<lparr>currentChunkUnits := currentChunkUnits st @ [u],
        currentChunkLength := currentChunkLength st + int (length u) + 1\<rparr>"
  using assms by (auto simp: packStep_def)

lemma packStep_units_nonempty: "currentChunkUnits (packStep now src cs ov st u) \<noteq> []"
  by (cases "currentChunkLength st + int (length u) + 1 > cs \<and> currentChunkUnits st \<noteq> []")
     (simp_all add: packStep_flush packStep_keep pushChunk_def)

lemma pack_units_nonempty:
  "units \<noteq> [] \<Longrightarrow> currentChunkUnits (foldl (packStep now src cs ov) st units) \<noteq> []"
  by (cases units rule: rev_cases) (simp_all add: packStep_units_nonempty)

lemma idInv_pushChunk: "idInv now src st \<Longrightarrow> idInv now src (pushChunk now src st)"
  by (auto simp: idInv_def pushChunk_def nth_append less_Suc_eq)

lemma idInv_packStep: "idInv now src st \<Longrightarrow> idInv now src (packStep now src cs ov st u)"
proof (cases "currentChunkLength st + int (length u) + 1 > cs \<and> currentChunkUnits st \<noteq> []")
  case True
  assume "idInv now src st"
  then have "idInv now src (pushChunk now src st)" by (rule idInv_pushChunk)
  then show ?thesis using True by (simp add: packStep_flush idInv_def)
next
  case False
  assume "idInv now src st"
  then show ?thesis using False by (simp add: packStep_keep idInv_def)
qed

lemma idInv_pack: "idInv now src st \<Longrightarrow> idInv now src (foldl (packStep now src cs ov) st units)"
  by (rule foldl_invariant) (simp_all add: idInv_packStep)

lemma shape_pushChunk:
  "shape st1 = shape st2 \<Longrightarrow> map content (chunks (pushChunk now1 src1 st1)) = map content (chunks (pushChunk now2 src2 st2))"
  by (simp add: shape_def pushChunk_def)

lemma shape_packStep:
  assumes "shape st1 = shape st2"
  shows "shape (packStep now1 src1 cs ov st1 u) = shape (packStep now2 src2 cs ov st2 u)"
proof (cases "currentChunkLength st1 + int (length u) + 1 > cs \<and> currentChunkUnits st1 \<noteq> []")
  case True
  moreover from True assms have "currentChunkLength st2 + int (length u) + 1 > cs \<and> currentChunkUnits st2 \<noteq> []"
    by (simp add: shape_def)
  ultimately show ?thesis
    using assms by (simp add: packStep_flush) (simp add: shape_def pushChunk_def)
next
  case False
  moreover from False assms have "\<not> (currentChunkLength st2 + int (length u) + 1 > cs \<and> currentChunkUnits st2 \<noteq> [])"
    by (simp add: shape_def)
  ultimately show ?thesis
    using assms by (simp add: packStep_keep) (simp add: shape_def)
qed

lemma shape_pack:
  "shape st1 = shape st2 \<Longrightarrow>
   shape (foldl (packStep now1 src1 cs ov) st1 units) = shape (foldl (packStep now2 src2 cs ov) st2 units)"
proof (induction units arbitrary: st1 st2)
  case Nil
  then show ?case by simp
next
  case (Cons u units)
  have "shape (packStep now1 src1 cs ov st1 u) = shape (packStep now2 src2 cs ov st2 u)"
    using Cons.prems by (rule shape_packStep)
  then show ?case
    using Cons.IH by simp
qed

lemma fits_chunkFits:
  assumes "fits cs ov g" and "g \<noteq> []" and "set g \<subseteq> set units" and "\<forall>u\<in>set units. u \<noteq> []"
  shows "chunkFits cs ov units (js_join [32] g)"
proof (cases "unitsLength g \<le> cs + 1")
  case True
  then show ?thesis
    using assms(2) by (simp add: chunkFits_def js_join_length)
next
  case False
  with assms(1) obtain p u where g: "g = p @ [u]" and p: "p \<noteq> []" and l: "unitsLength p \<le> ov + 1"
    by (auto simp: fits_def)
  have j: "js_join [32] g = js_join [32] p @ [32] @ u"
    using p by (simp add: g js_join_append)
  have "js_join [32] p \<noteq> []"
    using p assms(3,4) g by (intro js_join_nonempty) auto
  moreover have "int (length (js_join [32] p)) \<le> ov"
    using p l by (simp add: js_join_length)
  moreover have "u \<in> set units"
    using assms(3) g by simp
  ultimately show ?thesis
    unfolding chunkFits_def j by blast
qed

lemma fitInv_packStep:
  assumes "fitInv cs ov units st" and "0 \<le> ov" and "u \<in> set units"
    and "\<forall>u\<in>set units. u \<noteq> [] \<and> int (length u) \<le> cs"
  shows "fitInv cs ov units (packStep now src cs ov st u)"
proof (cases "currentChunkLength st + int (length u) + 1 > cs \<and> currentChunkUnits st \<noteq> []")
  case True
  let ?U = "currentChunkUnits st"
  let ?p = "overlapUnits ov ?U"
  have old: "chunkFits cs ov units (js_join [32] ?U)"
    using assms(1,4) True by (intro fits_chunkFits) (auto simp: fitInv_def)
  have sub: "set ?p \<subseteq> set units"
    using overlapUnits_suffix [of ov ?U] assms(1) set_mono_suffix
    by (fastforce simp: fitInv_def)
  have "fits cs ov (?p @ [u])"
  proof (cases "?p = []")
    case True
    then show ?thesis using assms(3,4) by (simp add: fits_def)
  next
    case False
    have "unitsLength ?p \<le> ov + 1"
      using assms(2) by (rule overlapUnits_bound)
    with False show ?thesis
      unfolding fits_def by blast
  qed
  then show ?thesis
    using True assms old sub by (simp add: packStep_flush) (simp add: fitInv_def pushChunk_def)
next
  case False
  have "fits cs ov (currentChunkUnits st @ [u])"
  proof (cases "currentChunkUnits st = []")
    case True
    then show ?thesis using assms(3,4) by (simp add: fits_def)
  next
    case ne: False
    then have "currentChunkLength st + int (length u) + 1 \<le> cs"
      using False by simp
    then show ?thesis
      using assms(1) by (simp add: fits_def fitInv_def)
  qed
  then show ?thesis
    using False assms by (simp add: packStep_keep) (simp add: fitInv_def)
qed

lemma fitInv_pack:
  assumes "fitInv cs ov units st" and "0 \<le> ov" and "set us \<subseteq> set units"
    and "\<forall>u\<in>set units. u \<noteq> [] \<and> int (length u) \<le> cs"
  shows "fitInv cs ov units (foldl (packStep now src cs ov) st us)"
  using assms(1)
proof (rule foldl_invariant)
  fix s x
  assume "fitInv cs ov units s" and "x \<in> set us"
  then show "fitInv cs ov units (packStep now src cs ov s x)"
    using assms(2-4) by (intro fitInv_packStep) auto
qed

lemma fitInv_finish:
  assumes "fitInv cs ov units st" and "\<forall>u\<in>set units. u \<noteq> []"
  shows "\<forall>c\<in>set (finish now src st). chunkFits cs ov units (content c)"
proof (cases "currentChunkUnits st = []")
  case True
  then show ?thesis using assms by (simp add: finish_def fitInv_def)
next
  case False
  have "chunkFits cs ov units (js_join [32] (currentChunkUnits st))"
    using assms False by (intro fits_chunkFits) (auto simp: fitInv_def)
  then show ?thesis
    using False assms by (auto simp: finish_def fitInv_def pushChunk_def)
qed

lemma overlapInv_packStep:
  assumes "overlapInv ov units gs st" and "u \<in> set units"
  shows "\<exists>gs'. overlapInv ov units gs' (packStep now src cs ov st u)"
proof (cases "currentChunkLength st + int (length u) + 1 > cs \<and> currentChunkUnits st \<noteq> []")
  case True
  let ?U = "currentChunkUnits st"
  have "successively (\<lambda>g h. \<exists>rest. rest \<noteq> [] \<and> h = overlapUnits ov g @ rest)
          ((gs @ [?U]) @ [overlapUnits ov ?U @ [u]])"
    using assms(1) by (auto simp: overlapInv_def successively_append_iff)
  moreover have "set (overlapUnits ov ?U) \<subseteq> set units"
    using overlapUnits_suffix [of ov ?U] assms(1) set_mono_suffix
    by (fastforce simp: overlapInv_def)
  ultimately have "overlapInv ov units (gs @ [?U]) (packStep now src cs ov st u)"
    using True assms by (simp add: packStep_flush) (simp add: overlapInv_def pushChunk_def)
  then show ?thesis ..
next
  case False
  have "successively (\<lambda>g h. \<exists>rest. rest \<noteq> [] \<and> h = overlapUnits ov g @ rest)
          (gs @ [currentChunkUnits st @ [u]])"
  proof (cases gs rule: rev_cases)
    case Nil
    then show ?thesis by simp
  next
    case (snoc gs0 g)
    with assms(1) obtain rest where "rest \<noteq> []" "currentChunkUnits st = overlapUnits ov g @ rest"
      and "successively (\<lambda>g h. \<exists>rest. rest \<noteq> [] \<and> h = overlapUnits ov g @ rest) (gs0 @ [g])"
      by (auto simp: overlapInv_def successively_append_iff)
    then have "\<exists>rest'. rest' \<noteq> [] \<and> currentChunkUnits st @ [u] = overlapUnits ov g @ rest'"
      by simp
    with snoc \<open>successively _ (gs0 @ [g])\<close> show ?thesis
      by (simp add: successively_append_iff)
  qed
  then have "overlapInv ov units gs (packStep now src cs ov st u)"
    using False assms by (simp add: packStep_keep) (simp add: overlapInv_def)
  then show ?thesis ..
qed

lemma overlapInv_pack:
  assumes "\<exists>gs. overlapInv ov units gs st" and "set us \<subseteq> set units"
  shows "\<exists>gs. overlapInv ov units gs (foldl (packStep now src cs ov) st us)"
  using assms(1)
proof (rule foldl_invariant)
  fix s x
  assume "\<exists>gs. overlapInv ov units gs s" and "x \<in> set us"
  then show "\<exists>gs. overlapInv ov units gs (packStep now src cs ov s x)"
    using assms(2) overlapInv_packStep by blast
qed

lemma pack_groups:
  assumes "\<forall>u\<in>set units. u \<noteq> []"
  shows "\<exists>gs. map content (finish now src (foldl (packStep now src cs ov) initialState units))
                 = map (js_join [32]) gs
            \<and> (\<forall>g\<in>set gs. g \<noteq> [] \<and> set g \<subseteq> set units)
            \<and> successively (\<lambda>g h. \<exists>rest. rest \<noteq> [] \<and> h = overlapUnits ov g @ rest) gs"
proof -
  let ?st = "foldl (packStep now src cs ov) initialState units"
  let ?R = "\<lambda>g h. \<exists>rest. rest \<noteq> [] \<and> h = overlapUnits ov g @ rest"
  have "overlapInv ov units [] initialState"
    by (simp add: overlapInv_def initialState_def)
  then have "\<exists>gs. overlapInv ov units gs initialState" ..
  then have "\<exists>gs. overlapInv ov units gs ?st"
    by (rule overlapInv_pack) simp
  then obtain gs where inv: "overlapInv ov units gs ?st" ..
  show ?thesis
  proof (cases "currentChunkUnits ?st = []")
    case True
    have "successively ?R gs"
      using inv by (simp add: overlapInv_def successively_append_iff)
    then show ?thesis
      using inv True by (intro exI [of _ gs]) (simp add: overlapInv_def finish_def)
  next
    case False
    have "map content (finish now src ?st) = map (js_join [32]) (gs @ [currentChunkUnits ?st])"
      using inv False by (simp add: overlapInv_def finish_def pushChunk_def)
    then show ?thesis
      using inv False by (intro exI [of _ "gs @ [currentChunkUnits ?st]"]) (simp add: overlapInv_def)
  qed
qed

subsection \<open>White space and the sentence pattern\<close>

lemma is_ws_simps [simp]: "is_ws 10" "is_ws 13" "is_ws 32"
  by (simp_all add: is_ws_def)

lemma terminator_not_ws: "is_terminator c \<Longrightarrow> \<not> is_ws c"
  by (auto simp: is_terminator_def is_ws_def)

lemma js_trim_Nil_iff: "js_trim s = [] \<longleftrightarrow> (\<forall>c\<in>set s. is_ws c)"
proof -
  have "(\<forall>x\<in>set (dropWhile is_ws s). is_ws x) \<longleftrightarrow> (\<forall>x\<in>set s. is_ws x)"
  proof
    assume a: "\<forall>x\<in>set (dropWhile is_ws s). is_ws x"
    have "set s = set (takeWhile is_ws s) \<union> set (dropWhile is_ws s)"
      by (metis set_append takeWhile_dropWhile_id)
    with a show "\<forall>x\<in>set s. is_ws x"
      by (auto dest: set_takeWhileD)
  next
    assume "\<forall>x\<in>set s. is_ws x"
    then show "\<forall>x\<in>set (dropWhile is_ws s). is_ws x"
      by (auto dest: set_dropWhileD)
  qed
  then show ?thesis
    by (simp add: js_trim_def dropWhile_eq_Nil_conv)
qed

lemma js_trim_last: "js_trim s \<noteq> [] \<Longrightarrow> \<not> is_ws (last (js_trim s))"
  by (simp add: js_trim_def last_rev hd_dropWhile)

lemma sentenceAt_unfold:
  "sentenceAt s =
     (if takeWhile (\<lambda>c. \<not> is_terminator c) s = [] then None
      else if takeWhile is_terminator (dropWhile (\<lambda>c. \<not> is_terminator c) s) \<noteq> []
            \<and> takeWhile is_ws (dropWhile is_terminator (dropWhile (\<lambda>c. \<not> is_terminator c) s)) \<noteq> []
      then Some (takeWhile (\<lambda>c. \<not> is_terminator c) s
                 @ takeWhile is_terminator (dropWhile (\<lambda>c. \<not> is_terminator c) s)
                 @ takeWhile is_ws (dropWhile is_terminator (dropWhile (\<lambda>c. \<not> is_terminator c) s)))
      else if takeWhile is_terminator (dropWhile (\<lambda>c. \<not> is_terminator c) s) \<noteq> []
            \<and> dropWhile is_terminator (dropWhile (\<lambda>c. \<not> is_terminator c) s) = []
      then Some (takeWhile (\<lambda>c. \<not> is_terminator c) s
                 @ takeWhile is_terminator (dropWhile (\<lambda>c. \<not> is_terminator c) s))
      else if dropWhile (\<lambda>c. \<not> is_terminator c) s = []
      then Some (takeWhile (\<lambda>c. \<not> is_terminator c) s)
      else None)"
  unfolding sentenceAt_def Let_def ..

lemma sentenceAt_Some:
  assumes "sentenceAt s = Some m"
  shows "m \<noteq> [] \<and> prefix m s \<and> ((\<exists>c\<in>set m. is_terminator c) \<or> m = s)"
proof -
  define body where "body = takeWhile (\<lambda>c. \<not> is_terminator c) s"
  define r1 where "r1 = dropWhile (\<lambda>c. \<not> is_terminator c) s"
  define marks where "marks = takeWhile is_terminator r1"
  define r2 where "r2 = dropWhile is_terminator r1"
  define spaces where "spaces = takeWhile is_ws r2"
  have s1: "s = body @ r1" by (simp add: body_def r1_def)
  have s2: "r1 = marks @ r2" by (simp add: marks_def r2_def)
  have s3: "r2 = spaces @ dropWhile is_ws r2" by (simp add: spaces_def)
  have mk: "marks \<noteq> [] \<Longrightarrow> is_terminator (hd marks)"
    unfolding marks_def by (metis hd_in_set set_takeWhileD)
  have eq: "sentenceAt s =
       (if body = [] then None
        else if marks \<noteq> [] \<and> spaces \<noteq> [] then Some (body @ marks @ spaces)
        else if marks \<noteq> [] \<and> r2 = [] then Some (body @ marks)
        else if r1 = [] then Some body
        else None)"
    unfolding sentenceAt_def body_def r1_def marks_def r2_def spaces_def Let_def ..
  consider (a) "body \<noteq> []" "marks \<noteq> []" "m = body @ marks @ spaces"
    | (b) "body \<noteq> []" "marks \<noteq> []" "r2 = []" "m = body @ marks"
    | (c) "body \<noteq> []" "r1 = []" "m = body"
    using assms unfolding eq by (auto split: if_splits)
  then show ?thesis
  proof cases
    case a
    have "prefix m s"
      using a s1 s2 s3 by (metis append.assoc prefixI)
    moreover have "hd marks \<in> set m" using a by simp
    ultimately show ?thesis using a mk by blast
  next
    case b
    have "m = s" using b s1 s2 by simp
    moreover have "m \<noteq> []" using b(1,4) by simp
    ultimately show ?thesis by blast
  next
    case c
    have "m = s" using c s1 by simp
    moreover have "m \<noteq> []" using c(1,3) by simp
    ultimately show ?thesis by blast
  qed
qed

lemma sentenceAt_after_terminators:
  assumes "\<not> is_terminator c" and "\<forall>x\<in>set cs. is_terminator x"
  shows "sentenceAt (c # cs) \<noteq> None"
proof -
  have t: "takeWhile (\<lambda>c. \<not> is_terminator c) cs = []"
    using assms(2) by (cases cs) simp_all
  have d: "dropWhile (\<lambda>c. \<not> is_terminator c) cs = cs"
    using assms(2) by (cases cs) simp_all
  have tk: "takeWhile is_terminator cs = cs" and dr: "dropWhile is_terminator cs = []"
    using assms(2) by simp_all
  show ?thesis
    unfolding sentenceAt_unfold using assms(1) by (simp add: t d tk dr)
qed

lemma matchAll_Nil:
  "matchAll s = [] \<Longrightarrow> \<forall>c\<in>set s. is_terminator c"
proof (induction s rule: matchAll.induct)
  case 1
  then show ?case by simp
next
  case (2 c cs)
  from "2.prems" have none: "sentenceAt (c # cs) = None" and rest: "matchAll cs = []"
    by (auto split: option.splits)
  from "2.IH"(1) [OF none rest] have all: "\<forall>x\<in>set cs. is_terminator x" .
  have "is_terminator c"
    using sentenceAt_after_terminators [of c cs] none all by blast
  with all show ?case by simp
qed

lemma matchAll_trim:
  "s = [] \<or> \<not> is_ws (last s) \<Longrightarrow> \<forall>m\<in>set (matchAll s). js_trim m \<noteq> []"
proof (induction s rule: matchAll.induct)
  case 1
  then show ?case by simp
next
  case (2 c cs)
  have lastcs: "cs = [] \<or> \<not> is_ws (last cs)"
    using "2.prems" by (auto split: if_splits)
  show ?case
  proof (cases "sentenceAt (c # cs)")
    case None
    then show ?thesis
      using "2.IH"(1) [OF None lastcs] by simp
  next
    case (Some m)
    from sentenceAt_Some [OF Some] have ne: "m \<noteq> []" and pre: "prefix m (c # cs)"
      and alt: "(\<exists>x\<in>set m. is_terminator x) \<or> m = c # cs"
      by auto
    have "\<exists>x\<in>set m. \<not> is_ws x"
    proof (rule disjE [OF alt])
      assume "\<exists>x\<in>set m. is_terminator x"
      then show ?thesis using terminator_not_ws by blast
    next
      assume "m = c # cs"
      then have "\<not> is_ws (last m)" using "2.prems" by simp
      moreover have "last m \<in> set m" using ne by simp
      ultimately show ?thesis by blast
    qed
    then have trim: "js_trim m \<noteq> []"
      by (simp add: js_trim_Nil_iff)
    from pre obtain r where r: "c # cs = m @ r" by (auto simp: prefix_def)
    then have dr: "drop (length m) (c # cs) = r" by (metis append_eq_conv_conj)
    have "r = [] \<or> \<not> is_ws (last r)"
      using "2.prems" r by (metis last_appendR list.discI)
    then have "\<forall>m'\<in>set (matchAll (drop (length m) (c # cs))). js_trim m' \<noteq> []"
      using "2.IH"(2) [OF Some] dr by simp
    with trim Some show ?thesis by simp
  qed
qed

lemma matchSentences_None: "matchSentences s = None \<Longrightarrow> list_all is_terminator s"
  using matchAll_Nil [of s] by (auto simp: matchSentences_def list_all_iff split: list.splits)

lemma matchSentences_Some:
  assumes "matchSentences s = Some ms" and "s = [] \<or> \<not> is_ws (last s)"
  shows "\<exists>m\<in>set ms. js_trim m \<noteq> []"
proof -
  from assms(1) have ms: "ms = matchAll s" and ne: "ms \<noteq> []"
    by (auto simp: matchSentences_def split: list.splits)
  from matchAll_trim [OF assms(2)] ms have "\<forall>m\<in>set ms. js_trim m \<noteq> []" by simp
  with ne show ?thesis by (cases ms) auto
qed

lemma normalizeNewlines_visible:
  "filter (\<lambda>c. \<not> is_ws c) (normalizeNewlines s) = filter (\<lambda>c. \<not> is_ws c) s"
  by (induction s rule: normalizeNewlines.induct) simp_all

lemma filter_dropWhile_ws:
  "filter (\<lambda>c. \<not> is_ws c) (dropWhile is_ws s) = filter (\<lambda>c. \<not> is_ws c) s"
  by (induction s) simp_all

lemma collapseSpaces_visible:
  "filter (\<lambda>c. \<not> is_ws c) (collapseSpaces s) = filter (\<lambda>c. \<not> is_ws c) s"
  by (induction s rule: collapseSpaces.induct) (simp_all add: filter_dropWhile_ws)

lemma blankLineAt_visible:
  assumes "blankLineAt s = Some n"
  shows "filter (\<lambda>c. \<not> is_ws c) (drop n s) = filter (\<lambda>c. \<not> is_ws c) s"
proof -
  from assms obtain cs where s: "s = 10 # cs"
    and n: "n \<le> Suc (length (takeWhile is_ws cs))"
    by (auto simp: blankLineAt_def Let_def split: list.splits if_splits)
  have "\<forall>x\<in>set (take n s). is_ws x"
  proof
    fix x assume "x \<in> set (take n s)"
    then have "x \<in> set (take n (10 # takeWhile is_ws cs))"
      using n s by (metis (no_types, lifting) append_Cons length_Cons order_refl take_all take_append takeWhile_dropWhile_id
          diff_is_0_eq' take_0 append_Nil2 n)
    then have "x \<in> set (10 # takeWhile is_ws cs)"
      by (rule in_set_takeD)
    then show "is_ws x"
      by (auto dest: set_takeWhileD)
  qed
  then have "filter (\<lambda>c. \<not> is_ws c) (take n s) = []"
    by (simp add: filter_empty_conv)
  then have "filter (\<lambda>c. \<not> is_ws c) (take n s @ drop n s) = filter (\<lambda>c. \<not> is_ws c) (drop n s)"
    by (simp only: filter_append append_Nil)
  then show ?thesis by simp
qed

lemma splitParagraphs_visible:
  "filter (\<lambda>c. \<not> is_ws c) (concat (splitParagraphs cur s)) = filter (\<lambda>c. \<not> is_ws c) (cur @ s)"
proof (induction cur s rule: splitParagraphs.induct)
  case (1 cur)
  then show ?case by simp
next
  case (2 cur c cs)
  show ?case
  proof (cases "blankLineAt (c # cs)")
    case None
    then show ?thesis using "2.IH"(1) [OF None] by simp
  next
    case (Some n)
    then show ?thesis
      using "2.IH"(2) [OF Some] blankLineAt_visible [OF Some] by simp
  qed
qed

lemma visible_paragraph:
  assumes "\<exists>c\<in>set s. \<not> is_ws c"
  shows "\<exists>p\<in>set (splitParagraphs [] (normalizeNewlines s)). js_trim (collapseSpaces p) \<noteq> []"
proof -
  let ?v = "filter (\<lambda>c. \<not> is_ws c)"
  have "?v (concat (splitParagraphs [] (normalizeNewlines s))) = ?v s"
    by (simp add: splitParagraphs_visible normalizeNewlines_visible)
  moreover have "?v s \<noteq> []"
    using assms by (simp add: filter_empty_conv)
  ultimately have "?v (concat (splitParagraphs [] (normalizeNewlines s))) \<noteq> []"
    by simp
  then obtain p where p: "p \<in> set (splitParagraphs [] (normalizeNewlines s))" and "?v p \<noteq> []"
    by (auto simp: filter_empty_conv)
  then have "?v (collapseSpaces p) \<noteq> []"
    by (simp add: collapseSpaces_visible)
  then have "js_trim (collapseSpaces p) \<noteq> []"
    by (auto simp: js_trim_Nil_iff filter_empty_conv)
  with p show ?thesis by blast
qed

subsection \<open>The units of a text\<close>

lemma js_slice_step:
  assumes "0 < cs" and "0 \<le> i" and "i < int (length s)"
  shows "js_slice s i (i + cs) = take (nat cs) (drop (nat i) s)"
proof -
  have a: "js_slice s i (i + cs) = take (nat (min (i + cs) (int (length s)) - i)) (drop (nat i) s)"
    using assms unfolding js_slice_def Let_def by simp
  show ?thesis
  proof (cases "i + cs \<le> int (length s)")
    case True
    then show ?thesis unfolding a by simp
  next
    case False
    then have "nat (min (i + cs) (int (length s)) - i) = length (drop (nat i) s)"
      using assms by simp
    moreover have "length (drop (nat i) s) \<le> nat cs"
      using False assms by simp
    ultimately show ?thesis unfolding a by simp
  qed
qed

lemma hardSplit_spec:
  assumes "0 < cs" and "0 \<le> i"
  shows "\<exists>pushed. hardSplit cs s i units = Some (units @ pushed)
           \<and> (\<forall>u\<in>set pushed. u \<noteq> [] \<and> int (length u) \<le> cs)
           \<and> (i < int (length s) \<longrightarrow> pushed \<noteq> [])"
  using assms(2)
proof (induction "length s - nat i" arbitrary: i units rule: less_induct)
  case less
  show ?case
  proof (cases "i < int (length s)")
    case False
    have "hardSplit cs s i units = Some (units @ [])"
      by (subst hardSplit.simps) (simp add: False)
    then show ?thesis using False by (intro exI [of _ "[]"]) simp
  next
    case True
    define u where "u = take (nat cs) (drop (nat i) s)"
    have une: "u \<noteq> []"
      using True less.prems assms(1) unfolding u_def by simp
    have ule: "int (length u) \<le> cs"
      using assms(1) unfolding u_def by simp
    have step: "hardSplit cs s i units = hardSplit cs s (i + cs) (units @ [u])"
      by (subst hardSplit.simps) (simp add: True u_def js_slice_step [OF assms(1) less.prems True])
    have "length s - nat (i + cs) < length s - nat i"
      using True less.prems assms(1) by linarith
    moreover have "0 \<le> i + cs" using less.prems assms(1) by simp
    ultimately have "\<exists>pushed. hardSplit cs s (i + cs) (units @ [u]) = Some ((units @ [u]) @ pushed)
           \<and> (\<forall>u\<in>set pushed. u \<noteq> [] \<and> int (length u) \<le> cs)
           \<and> (i + cs < int (length s) \<longrightarrow> pushed \<noteq> [])"
      by (rule less.hyps)
    then obtain pushed where p: "hardSplit cs s (i + cs) (units @ [u]) = Some ((units @ [u]) @ pushed)"
      and q: "\<forall>u\<in>set pushed. u \<noteq> [] \<and> int (length u) \<le> cs"
      by blast
    have "hardSplit cs s i units = Some (units @ (u # pushed))"
      unfolding step p by simp
    moreover have "\<forall>x\<in>set (u # pushed). x \<noteq> [] \<and> int (length x) \<le> cs"
      using q une ule by simp
    ultimately show ?thesis by (intro exI [of _ "u # pushed"]) simp
  qed
qed

lemma sentencesLoop_spec:
  assumes "0 < cs"
  shows "\<exists>pushed. sentencesLoop cs ss units = Some (units @ pushed)
           \<and> (\<forall>u\<in>set pushed. u \<noteq> [] \<and> int (length u) \<le> cs)
           \<and> ((\<exists>s\<in>set ss. js_trim s \<noteq> []) \<longrightarrow> pushed \<noteq> [])"
proof (induction ss arbitrary: units)
  case Nil
  show ?case by (intro exI [of _ "[]"]) simp
next
  case (Cons s ss)
  let ?t = "js_trim s"
  show ?case
  proof (cases "?t = []")
    case True
    from Cons [of units] obtain pushed where
      "sentencesLoop cs ss units = Some (units @ pushed)"
      "\<forall>u\<in>set pushed. u \<noteq> [] \<and> int (length u) \<le> cs"
      "(\<exists>s\<in>set ss. js_trim s \<noteq> []) \<longrightarrow> pushed \<noteq> []"
      by blast
    then show ?thesis
      using True by (intro exI [of _ pushed]) simp
  next
    case False
    show ?thesis
    proof (cases "int (length ?t) > cs")
      case long: True
      from hardSplit_spec [OF assms, of 0 ?t units] False obtain p1 where
        h: "hardSplit cs ?t 0 units = Some (units @ p1)"
        and h1: "\<forall>u\<in>set p1. u \<noteq> [] \<and> int (length u) \<le> cs" and h2: "p1 \<noteq> []"
        by auto
      from Cons [of "units @ p1"] obtain p2 where
        l: "sentencesLoop cs ss (units @ p1) = Some ((units @ p1) @ p2)"
        and l1: "\<forall>u\<in>set p2. u \<noteq> [] \<and> int (length u) \<le> cs"
        by blast
      have "sentencesLoop cs (s # ss) units = Some (units @ (p1 @ p2))"
        using False long h l by simp
      moreover have "\<forall>u\<in>set (p1 @ p2). u \<noteq> [] \<and> int (length u) \<le> cs"
        using h1 l1 by auto
      ultimately show ?thesis
        using h2 by (intro exI [of _ "p1 @ p2"]) simp
    next
      case short: False
      from Cons [of "units @ [?t]"] obtain p2 where
        l: "sentencesLoop cs ss (units @ [?t]) = Some ((units @ [?t]) @ p2)"
        and l1: "\<forall>u\<in>set p2. u \<noteq> [] \<and> int (length u) \<le> cs"
        by blast
      have "sentencesLoop cs (s # ss) units = Some (units @ (?t # p2))"
        using False short l by simp
      moreover have "\<forall>u\<in>set (?t # p2). u \<noteq> [] \<and> int (length u) \<le> cs"
        using False short l1 by auto
      ultimately show ?thesis
        by (intro exI [of _ "?t # p2"]) simp
    qed
  qed
qed

lemma paragraphsLoop_spec:
  assumes "0 < cs"
  shows "\<exists>pushed. paragraphsLoop cs ps units = Some (units @ pushed)
           \<and> (\<forall>u\<in>set pushed. unitOk cs u)
           \<and> ((\<exists>p\<in>set ps. js_trim (collapseSpaces p) \<noteq> []) \<longrightarrow> pushed \<noteq> [])"
proof (induction ps arbitrary: units)
  case Nil
  show ?case by (intro exI [of _ "[]"]) simp
next
  case (Cons p ps)
  let ?t = "js_trim (collapseSpaces p)"
  have whole: "\<exists>pushed. paragraphsLoop cs (p # ps) units = Some (units @ pushed)
           \<and> (\<forall>u\<in>set pushed. unitOk cs u) \<and> pushed \<noteq> []"
    if step: "paragraphsLoop cs (p # ps) units = paragraphsLoop cs ps (units @ [?t])"
      and ok: "unitOk cs ?t"
  proof -
    from Cons [of "units @ [?t]"] obtain p2 where
      l: "paragraphsLoop cs ps (units @ [?t]) = Some ((units @ [?t]) @ p2)"
      and l1: "\<forall>u\<in>set p2. unitOk cs u"
      by blast
    have "paragraphsLoop cs (p # ps) units = Some (units @ (?t # p2))"
      using step l by simp
    moreover have "\<forall>u\<in>set (?t # p2). unitOk cs u"
      using ok l1 by simp
    ultimately show ?thesis
      by (intro exI [of _ "?t # p2"]) simp
  qed
  show ?case
  proof (cases "?t = []")
    case True
    from Cons [of units] obtain pushed where
      "paragraphsLoop cs ps units = Some (units @ pushed)"
      "\<forall>u\<in>set pushed. unitOk cs u"
      "(\<exists>p\<in>set ps. js_trim (collapseSpaces p) \<noteq> []) \<longrightarrow> pushed \<noteq> []"
      by blast
    then show ?thesis
      using True by (intro exI [of _ pushed]) simp
  next
    case False
    show ?thesis
    proof (cases "2 * int (length ?t) < cs")
      case True
      have "paragraphsLoop cs (p # ps) units = paragraphsLoop cs ps (units @ [?t])"
        using False True by simp
      moreover have "unitOk cs ?t"
        using False True by (simp add: unitOk_def)
      ultimately obtain pushed where "paragraphsLoop cs (p # ps) units = Some (units @ pushed)"
        "\<forall>u\<in>set pushed. unitOk cs u" "pushed \<noteq> []"
        using whole by blast
      then show ?thesis by (intro exI [of _ pushed]) simp
    next
      case big: False
      show ?thesis
      proof (cases "matchSentences ?t")
        case None
        have "paragraphsLoop cs (p # ps) units = paragraphsLoop cs ps (units @ [?t])"
          using False big None by simp
        moreover have "unitOk cs ?t"
          using False matchSentences_None [OF None] by (simp add: unitOk_def)
        ultimately obtain pushed where "paragraphsLoop cs (p # ps) units = Some (units @ pushed)"
          "\<forall>u\<in>set pushed. unitOk cs u" "pushed \<noteq> []"
          using whole by blast
        then show ?thesis by (intro exI [of _ pushed]) simp
      next
        case (Some ms)
        have "\<exists>m\<in>set ms. js_trim m \<noteq> []"
          using matchSentences_Some [OF Some] js_trim_last [of "collapseSpaces p"] by blast
        with sentencesLoop_spec [OF assms, of ms units] obtain p1 where
          h: "sentencesLoop cs ms units = Some (units @ p1)"
          and h1: "\<forall>u\<in>set p1. u \<noteq> [] \<and> int (length u) \<le> cs" and h2: "p1 \<noteq> []"
          by blast
        from Cons [of "units @ p1"] obtain p2 where
          l: "paragraphsLoop cs ps (units @ p1) = Some ((units @ p1) @ p2)"
          and l1: "\<forall>u\<in>set p2. unitOk cs u"
          by blast
        have "paragraphsLoop cs (p # ps) units = Some (units @ (p1 @ p2))"
          using False big Some h l by simp
        moreover have "\<forall>u\<in>set (p1 @ p2). unitOk cs u"
          using h1 l1 by (auto simp: unitOk_def)
        ultimately show ?thesis
          using h2 by (intro exI [of _ "p1 @ p2"]) simp
      qed
    qed
  qed
qed

lemma splitIntoUnits_spec:
  assumes "0 < cs"
  shows "\<exists>units. splitIntoUnits cs s = Some units
           \<and> (\<forall>u\<in>set units. unitOk cs u)
           \<and> ((\<exists>c\<in>set s. \<not> is_ws c) \<longrightarrow> units \<noteq> [])"
proof -
  from paragraphsLoop_spec [OF assms, of "splitParagraphs [] (normalizeNewlines s)" "[]"]
  obtain pushed where "paragraphsLoop cs (splitParagraphs [] (normalizeNewlines s)) [] = Some ([] @ pushed)"
    and "\<forall>u\<in>set pushed. unitOk cs u"
    and "(\<exists>p\<in>set (splitParagraphs [] (normalizeNewlines s)). js_trim (collapseSpaces p) \<noteq> []) \<longrightarrow> pushed \<noteq> []"
    by blast
  then show ?thesis
    using visible_paragraph [of s]
    by (intro exI [of _ pushed]) (simp add: splitIntoUnits_def)
qed

subsection \<open>The chunks of a text\<close>

lemma chunkText_blank:
  "text = [] \<or> js_trim text = [] \<Longrightarrow> chunkText now text src cs ov = Some []"
  by (auto simp: chunkText_def)

lemma chunkText_units:
  assumes "text \<noteq> []" and "js_trim text \<noteq> []" and "splitIntoUnits cs text = Some units"
  shows "chunkText now text src cs ov
           = Some (finish now src (foldl (packStep now src cs ov) initialState units))"
  using assms by (simp add: chunkText_def)

lemma chunkText_diverges:
  "text \<noteq> [] \<Longrightarrow> js_trim text \<noteq> [] \<Longrightarrow> splitIntoUnits cs text = None \<Longrightarrow>
   chunkText now text src cs ov = None"
  by (simp add: chunkText_def)

text \<open>Concrete runs.\<close>

lemma eval_hello_A:
  "chunkText clockA (ascii ''Hello. World.'') (ascii ''doc.txt'') 10 2 =
     Some [\<lparr>id_chunk = ascii ''doc.txt-0-1700000000000'', sourceFile = ascii ''doc.txt'',
            content = ascii ''Hello.''\<rparr>,
           \<lparr>id_chunk = ascii ''doc.txt-1-1700000000000'', sourceFile = ascii ''doc.txt'',
            content = ascii ''World.''\<rparr>]"
  by (simp add: chunker_eval clockA_def)

lemma eval_hello_B:
  "chunkText clockB (ascii ''Hello. World.'') (ascii ''doc.txt'') 10 2 =
     Some [\<lparr>id_chunk = ascii ''doc.txt-0-1700000000001'', sourceFile = ascii ''doc.txt'',
            content = ascii ''Hello.''\<rparr>,
           \<lparr>id_chunk = ascii ''doc.txt-1-1700000000001'', sourceFile = ascii ''doc.txt'',
            content = ascii ''World.''\<rparr>]"
  by (simp add: chunker_eval clockB_def)

lemma eval_ab_units:
  "splitIntoUnits 10 (ascii ''aaaaaaa. bbbbbbb.'') = Some [ascii ''aaaaaaa.'', ascii ''bbbbbbb.'']"
  by (simp add: chunker_eval)

lemma eval_ab:
  "chunkText clockA (ascii ''aaaaaaa. bbbbbbb.'') (ascii ''doc.txt'') 10 9 =
     Some [\<lparr>id_chunk = ascii ''doc.txt-0-1700000000000'', sourceFile = ascii ''doc.txt'',
            content = ascii ''aaaaaaa.''\<rparr>,
           \<lparr>id_chunk = ascii ''doc.txt-1-1700000000000'', sourceFile = ascii ''doc.txt'',
            content = ascii ''aaaaaaa. bbbbbbb.''\<rparr>]"
  by (simp add: chunker_eval clockA_def)

lemma eval_dots: "splitIntoUnits 2 (ascii ''....'') = Some [ascii ''....'']"
  by (simp add: chunker_eval)

lemma eval_version:
  "chunkText clockA (ascii ''v1.2 released.'') (ascii ''doc.txt'') 20 5 =
     Some [\<lparr>id_chunk = ascii ''doc.txt-0-1700000000000'', sourceFile = ascii ''doc.txt'',
            content = ascii ''2 released.''\<rparr>]"
  by (simp add: chunker_eval clockA_def)

lemma eval_space: "chunkText clockA [32] (ascii ''doc.txt'') 800 100 = Some []"
  by (simp add: chunker_eval)

text \<open>
  Claim C1 as stated fails. With chunk size 10 and overlap 9 the second chunk has 17
  characters, and it consists of two units of 8 characters each; with chunk size 2 the
  paragraph \<open>....\<close> is a unit of 4 characters.
\<close>

theorem chunkText_content_bound_counterexample:
  "chunkText clockA (ascii ''aaaaaaa. bbbbbbb.'') (ascii ''doc.txt'') 10 9 =
     Some [\<lparr>id_chunk = ascii ''doc.txt-0-1700000000000'', sourceFile = ascii ''doc.txt'',
            content = ascii ''aaaaaaa.''\<rparr>,
           \<lparr>id_chunk = ascii ''doc.txt-1-1700000000000'', sourceFile = ascii ''doc.txt'',
            content = ascii ''aaaaaaa. bbbbbbb.''\<rparr>]
   \<and> length (ascii ''aaaaaaa. bbbbbbb.'') = 17
   \<and> splitIntoUnits 10 (ascii ''aaaaaaa. bbbbbbb.'') = Some [ascii ''aaaaaaa.'', ascii ''bbbbbbb.'']
   \<and> splitIntoUnits 2 (ascii ''....'') = Some [ascii ''....'']
   \<and> length (ascii ''....'') = 4"
  using eval_ab eval_ab_units eval_dots by (simp add: ascii_def)

text \<open>
  Claim C1, as amended. For a chunk size above 0 and an overlap of at least 0, every unit
  produced by \<open>splitIntoUnits\<close> has at most \<open>chunkSize\<close> characters unless it is made
  of the terminators \<open>. ! ?\<close> only. When every unit has at most \<open>chunkSize\<close> characters,
  the content of every chunk has at most \<open>chunkSize\<close> characters, except a chunk that
  consists of a non-empty overlap prefix of at most \<open>overlap\<close> characters, one space and
  one unit; every chunk has at most \<open>chunkSize + overlap + 1\<close> characters.
\<close>

theorem chunkText_content_bound:
  assumes "0 < cs" and "0 \<le> ov" and "chunkText now text src cs ov = Some r"
  shows "\<exists>units. splitIntoUnits cs text = Some units
           \<and> (\<forall>u\<in>set units. int (length u) \<le> cs \<or> list_all is_terminator u)
           \<and> ((\<forall>u\<in>set units. int (length u) \<le> cs) \<longrightarrow>
                (\<forall>c\<in>set r.
                   (int (length (content c)) \<le> cs
                    \<or> (\<exists>pre u. content c = pre @ [32] @ u \<and> pre \<noteq> []
                          \<and> int (length pre) \<le> ov \<and> u \<in> set units))
                   \<and> int (length (content c)) \<le> cs + ov + 1))"
proof -
  from splitIntoUnits_spec [OF assms(1), of "text"] obtain units where
    u: "splitIntoUnits cs text = Some units" and ok: "\<forall>u\<in>set units. unitOk cs u"
    by blast
  have ne: "\<forall>u\<in>set units. u \<noteq> []"
    using ok by (simp add: unitOk_def)
  have small: "\<forall>c\<in>set r. chunkFits cs ov units (content c)"
    if le: "\<forall>u\<in>set units. int (length u) \<le> cs"
  proof (cases "text = [] \<or> js_trim text = []")
    case True
    then show ?thesis using assms(3) chunkText_blank [OF True] by simp
  next
    case False
    let ?st = "foldl (packStep now src cs ov) initialState units"
    have r: "r = finish now src ?st"
      using False assms(3) chunkText_units [OF _ _ u, of now src ov] by simp
    have "fitInv cs ov units initialState"
      using assms(1) by (simp add: fitInv_def fits_def initialState_def)
    then have "fitInv cs ov units ?st"
      using assms(2) le ne by (intro fitInv_pack) auto
    then show ?thesis
      unfolding r using ne by (rule fitInv_finish)
  qed
  have total: "int (length s) \<le> cs + ov + 1"
    if "chunkFits cs ov units s" and "\<forall>u\<in>set units. int (length u) \<le> cs" for s
    using that assms(2) by (auto simp: chunkFits_def)
  have "\<forall>u\<in>set units. int (length u) \<le> cs \<or> list_all is_terminator u"
    using ok by (simp add: unitOk_def)
  moreover have "(\<forall>u\<in>set units. int (length u) \<le> cs) \<longrightarrow>
                (\<forall>c\<in>set r.
                   (int (length (content c)) \<le> cs
                    \<or> (\<exists>pre u. content c = pre @ [32] @ u \<and> pre \<noteq> []
                          \<and> int (length pre) \<le> ov \<and> u \<in> set units))
                   \<and> int (length (content c)) \<le> cs + ov + 1)"
    using small total by (auto simp: chunkFits_def)
  ultimately show ?thesis
    using u by (intro exI [of _ units]) simp
qed

theorem chunkText_content_bound_witness:
  "(0 :: int) < 10 \<and> (0 :: int) \<le> 9
   \<and> chunkText clockA (ascii ''aaaaaaa. bbbbbbb.'') (ascii ''doc.txt'') 10 9 =
     Some [\<lparr>id_chunk = ascii ''doc.txt-0-1700000000000'', sourceFile = ascii ''doc.txt'',
            content = ascii ''aaaaaaa.''\<rparr>,
           \<lparr>id_chunk = ascii ''doc.txt-1-1700000000000'', sourceFile = ascii ''doc.txt'',
            content = ascii ''aaaaaaa. bbbbbbb.''\<rparr>]
   \<and> splitIntoUnits 10 (ascii ''aaaaaaa. bbbbbbb.'') = Some [ascii ''aaaaaaa.'', ascii ''bbbbbbb.'']
   \<and> int (length (ascii ''aaaaaaa.'')) \<le> 10
   \<and> int (length (ascii ''aaaaaaa. bbbbbbb.'')) \<le> 10 + 9 + 1"
proof -
  have p: "(0 :: int) < 10" "(0 :: int) \<le> 9" by simp_all
  from chunkText_content_bound [OF p eval_ab] eval_ab_units
  have "(\<forall>u\<in>set [ascii ''aaaaaaa.'', ascii ''bbbbbbb.'']. int (length u) \<le> 10) \<longrightarrow>
     (\<forall>c\<in>set [\<lparr>id_chunk = ascii ''doc.txt-0-1700000000000'', sourceFile = ascii ''doc.txt'',
            content = ascii ''aaaaaaa.''\<rparr>,
           \<lparr>id_chunk = ascii ''doc.txt-1-1700000000000'', sourceFile = ascii ''doc.txt'',
            content = ascii ''aaaaaaa. bbbbbbb.''\<rparr>]. int (length (content c)) \<le> 10 + 9 + 1)"
    by auto
  moreover have "\<forall>u\<in>set [ascii ''aaaaaaa.'', ascii ''bbbbbbb.'']. int (length u) \<le> 10"
    by (simp add: ascii_def)
  ultimately have "int (length (ascii ''aaaaaaa. bbbbbbb.'')) \<le> 10 + 9 + 1"
    by simp
  moreover have "int (length (ascii ''aaaaaaa.'')) \<le> 10"
    by (simp add: ascii_def)
  ultimately show ?thesis
    using p eval_ab eval_ab_units by blast
qed

text \<open>
  Claim C2 at the input \<open>v1.2 released.\<close> with chunk size 20 and overlap 5: the sentence
  pattern finds no match that starts before the \<open>2\<close>, so the only chunk is
  \<open>2 released.\<close> and the characters \<open>v1.\<close> of the text are in no chunk. For
  comparison, the two chunks of \<open>aaaaaaa. bbbbbbb.\<close> keep every character of their text.
\<close>

theorem chunkText_drops_text:
  "chunkText clockA (ascii ''v1.2 released.'') (ascii ''doc.txt'') 20 5 =
     Some [\<lparr>id_chunk = ascii ''doc.txt-0-1700000000000'', sourceFile = ascii ''doc.txt'',
            content = ascii ''2 released.''\<rparr>]
   \<and> \<not> keepsVisibleText (ascii ''v1.2 released.'')
         [\<lparr>id_chunk = ascii ''doc.txt-0-1700000000000'', sourceFile = ascii ''doc.txt'',
           content = ascii ''2 released.''\<rparr>]
   \<and> keepsVisibleText (ascii ''aaaaaaa. bbbbbbb.'')
         [\<lparr>id_chunk = ascii ''doc.txt-0-1700000000000'', sourceFile = ascii ''doc.txt'',
           content = ascii ''aaaaaaa.''\<rparr>,
          \<lparr>id_chunk = ascii ''doc.txt-1-1700000000000'', sourceFile = ascii ''doc.txt'',
           content = ascii ''aaaaaaa. bbbbbbb.''\<rparr>]"
  using eval_version by (simp add: keepsVisibleText_def ascii_def is_ws_def list_emb_code)

text \<open>
  Claim C4 as stated fails: two calls with the same arguments, made while the clock shows
  different readings, return different sequences, as the identifiers differ.
\<close>

theorem chunkText_clock_counterexample:
  "chunkText clockA (ascii ''Hello. World.'') (ascii ''doc.txt'') 10 2
     \<noteq> chunkText clockB (ascii ''Hello. World.'') (ascii ''doc.txt'') 10 2"
  unfolding eval_hello_A eval_hello_B by (simp add: ascii_def)

text \<open>
  Claim C4, as amended. Two calls of \<open>chunkText\<close> with the same text, source file, chunk
  size and overlap return the same contents and the same source file tags, whatever the
  clock shows; the identifier of the chunk at position \<open>i\<close> is the source file, a hyphen,
  \<open>i\<close> in decimal, a hyphen, and the reading of \<open>Date.now()\<close> when the chunk was
  pushed, so that identifiers agree when the readings do.
\<close>

theorem chunkText_clock:
  "map_option (map content) (chunkText now1 text src cs ov)
     = map_option (map content) (chunkText now2 text src cs ov)
   \<and> map_option (map sourceFile) (chunkText now1 text src cs ov)
     = map_option (map sourceFile) (chunkText now2 text src cs ov)
   \<and> (\<forall>r i. chunkText now1 text src cs ov = Some r \<and> i < length r \<longrightarrow>
         id_chunk (r ! i) = src @ [45] @ show_nat i @ [45] @ show_int (now1 i)
         \<and> sourceFile (r ! i) = src)"
proof (cases "text = [] \<or> js_trim text = []")
  case True
  then show ?thesis by (simp add: chunkText_blank)
next
  case False
  show ?thesis
  proof (cases "splitIntoUnits cs text")
    case None
    then show ?thesis using False by (simp add: chunkText_diverges)
  next
    case (Some units)
    let ?st = "\<lambda>now. foldl (packStep now src cs ov) initialState units"
    have res: "chunkText now text src cs ov = Some (finish now src (?st now))" for now
      using False chunkText_units [OF _ _ Some] by simp
    have sh: "shape (?st now1) = shape (?st now2)"
      by (rule shape_pack) simp
    have cont: "map content (finish now1 src (?st now1)) = map content (finish now2 src (?st now2))"
      using sh by (auto simp: finish_def shape_def pushChunk_def)
    have ids: "idInv now src (pushChunk now src (?st now)) \<and> idInv now src (?st now)" for now
    proof -
      have "idInv now src initialState" by (simp add: idInv_def initialState_def)
      then have "idInv now src (?st now)" by (rule idInv_pack)
      then show ?thesis by (simp add: idInv_pushChunk)
    qed
    have tag: "i < length (finish now src (?st now)) \<Longrightarrow>
          id_chunk (finish now src (?st now) ! i) = src @ [45] @ show_nat i @ [45] @ show_int (now i)
          \<and> sourceFile (finish now src (?st now) ! i) = src" for now i
      using ids [of now] by (auto simp: finish_def idInv_def split: if_splits)
    have len: "length (finish now1 src (?st now1)) = length (finish now2 src (?st now2))"
      using cont by (metis length_map)
    have srcs: "map sourceFile (finish now1 src (?st now1)) = map sourceFile (finish now2 src (?st now2))"
      using len tag [of _ now1] tag [of _ now2] by (auto simp: list_eq_iff_nth_eq)
    show ?thesis
      using cont srcs tag [of _ now1] by (simp add: res)
  qed
qed

theorem chunkText_clock_witness:
  "map_option (map content) (chunkText clockA (ascii ''Hello. World.'') (ascii ''doc.txt'') 10 2)
     = map_option (map content) (chunkText clockB (ascii ''Hello. World.'') (ascii ''doc.txt'') 10 2)
   \<and> ascii ''doc.txt-1-1700000000000''
     = ascii ''doc.txt'' @ [45] @ show_nat 1 @ [45] @ show_int (clockA 1)"
proof -
  let ?r = "[\<lparr>id_chunk = ascii ''doc.txt-0-1700000000000'', sourceFile = ascii ''doc.txt'',
            content = ascii ''Hello.''\<rparr>,
           \<lparr>id_chunk = ascii ''doc.txt-1-1700000000000'', sourceFile = ascii ''doc.txt'',
            content = ascii ''World.''\<rparr>]"
  from chunkText_clock [of clockA "ascii ''Hello. World.''" "ascii ''doc.txt''" 10 2 clockB]
  have a: "map_option (map content) (chunkText clockA (ascii ''Hello. World.'') (ascii ''doc.txt'') 10 2)
     = map_option (map content) (chunkText clockB (ascii ''Hello. World.'') (ascii ''doc.txt'') 10 2)"
    and b: "\<And>r i. chunkText clockA (ascii ''Hello. World.'') (ascii ''doc.txt'') 10 2 = Some r \<Longrightarrow> i < length r \<Longrightarrow>
         id_chunk (r ! i) = ascii ''doc.txt'' @ [45] @ show_nat i @ [45] @ show_int (clockA i)"
    by blast+
  from b [OF eval_hello_A, of 1] have "id_chunk (?r ! 1) = ascii ''doc.txt'' @ [45] @ show_nat 1 @ [45] @ show_int (clockA 1)"
    by simp
  then have "ascii ''doc.txt-1-1700000000000'' = ascii ''doc.txt'' @ [45] @ show_nat 1 @ [45] @ show_int (clockA 1)"
    by simp
  with a show ?thesis by blast
qed

text \<open>
  Claim C7 as stated fails: with chunk size 10 and overlap 2 the text \<open>Hello. World.\<close>
  gives the chunks \<open>Hello.\<close> and \<open>World.\<close>, which share no text.
\<close>

theorem chunkText_overlap_counterexample:
  "chunkText clockA (ascii ''Hello. World.'') (ascii ''doc.txt'') 10 2 =
     Some [\<lparr>id_chunk = ascii ''doc.txt-0-1700000000000'', sourceFile = ascii ''doc.txt'',
            content = ascii ''Hello.''\<rparr>,
           \<lparr>id_chunk = ascii ''doc.txt-1-1700000000000'', sourceFile = ascii ''doc.txt'',
            content = ascii ''World.''\<rparr>]
   \<and> \<not> sharesOverlap 2 (ascii ''Hello.'') (ascii ''World.'')"
  using eval_hello_A by (simp add: sharesOverlap_def ascii_def upt_conv_Cons)

text \<open>
  Claim C7, as amended. For a chunk size above 0 and an overlap of at least 0, take two
  adjacent chunks of the result. The earlier one is the join of a non-empty list of units of
  the text; the join of the overlap prefix selected from these units ends the earlier chunk
  and begins the later one, and has at most \<open>overlap\<close> characters. This shared text is
  non-empty exactly when the last unit of the earlier chunk has at most \<open>overlap\<close>
  characters; otherwise the two chunks share nothing.
\<close>

theorem chunkText_overlap:
  assumes "0 < cs" and "0 \<le> ov" and "chunkText now text src cs ov = Some r" and "Suc i < length r"
  shows "\<exists>units shared.
           units \<noteq> [] \<and> content (r ! i) = js_join [32] units
           \<and> (\<exists>all. splitIntoUnits cs text = Some all \<and> set units \<subseteq> set all)
           \<and> shared = js_join [32] (overlapUnits ov units)
           \<and> suffix shared (content (r ! i)) \<and> prefix shared (content (r ! Suc i))
           \<and> int (length shared) \<le> ov
           \<and> (shared \<noteq> [] \<longleftrightarrow> int (length (last units)) \<le> ov)"
proof -
  from splitIntoUnits_spec [OF assms(1), of "text"] obtain all where
    u: "splitIntoUnits cs text = Some all" and ok: "\<forall>u\<in>set all. unitOk cs u"
    by blast
  have ne: "\<forall>u\<in>set all. u \<noteq> []"
    using ok by (simp add: unitOk_def)
  have "\<not> (text = [] \<or> js_trim text = [])"
    using assms(3,4) chunkText_blank [of "text" now src cs ov] by auto
  then have r: "r = finish now src (foldl (packStep now src cs ov) initialState all)"
    using assms(3) chunkText_units [OF _ _ u, of now src ov] by simp
  from pack_groups [OF ne, of now src cs ov] obtain gs where
    c: "map content r = map (js_join [32]) gs"
    and g: "\<forall>g\<in>set gs. g \<noteq> [] \<and> set g \<subseteq> set all"
    and s: "successively (\<lambda>g h. \<exists>rest. rest \<noteq> [] \<and> h = overlapUnits ov g @ rest) gs"
    unfolding r by blast
  have len: "length gs = length r"
    using c by (metis length_map)
  define units where "units = gs ! i"
  define shared where "shared = js_join [32] (overlapUnits ov units)"
  have i: "i < length gs" "Suc i < length gs"
    using assms(4) len by simp_all
  have c1: "content (r ! i) = js_join [32] units"
    using c i len unfolding units_def by (metis nth_map)
  have c2: "content (r ! Suc i) = js_join [32] (gs ! Suc i)"
    using c i len by (metis nth_map)
  have un: "units \<noteq> []" and sub: "set units \<subseteq> set all"
    using g i unfolding units_def by auto
  from successively_nth [OF s i(2)] obtain rest where
    nx: "gs ! Suc i = overlapUnits ov units @ rest"
    unfolding units_def by blast
  have suf: "suffix shared (content (r ! i))"
    unfolding shared_def c1 by (rule js_join_suffix) (rule overlapUnits_suffix)
  have pre: "prefix shared (content (r ! Suc i))"
    unfolding shared_def c2 nx by (rule js_join_prefix)
  have le: "int (length shared) \<le> ov"
    unfolding shared_def using assms(2) by (rule overlap_text_length)
  have iff: "shared \<noteq> [] \<longleftrightarrow> int (length (last units)) \<le> ov"
  proof
    assume "shared \<noteq> []"
    then have "overlapUnits ov units \<noteq> []"
      unfolding shared_def by auto
    then show "int (length (last units)) \<le> ov"
      using overlapUnits_empty [OF un, of ov] by fastforce
  next
    assume "int (length (last units)) \<le> ov"
    then have "overlapUnits ov units \<noteq> []"
      using un by (simp add: overlapUnits_nonempty)
    moreover have "\<forall>x\<in>set (overlapUnits ov units). x \<noteq> []"
      using overlapUnits_suffix [of ov units] sub ne set_mono_suffix by fastforce
    ultimately show "shared \<noteq> []"
      unfolding shared_def by (rule js_join_nonempty)
  qed
  have "\<exists>all. splitIntoUnits cs text = Some all \<and> set units \<subseteq> set all"
    using u sub by (intro exI [of _ all]) simp
  then show ?thesis
    using un c1 suf pre le iff shared_def
    by (intro exI [of _ units] exI [of _ shared]) simp
qed

theorem chunkText_overlap_witness:
  "(0 :: int) < 10 \<and> (0 :: int) \<le> 9
   \<and> chunkText clockA (ascii ''aaaaaaa. bbbbbbb.'') (ascii ''doc.txt'') 10 9 =
     Some [\<lparr>id_chunk = ascii ''doc.txt-0-1700000000000'', sourceFile = ascii ''doc.txt'',
            content = ascii ''aaaaaaa.''\<rparr>,
           \<lparr>id_chunk = ascii ''doc.txt-1-1700000000000'', sourceFile = ascii ''doc.txt'',
            content = ascii ''aaaaaaa. bbbbbbb.''\<rparr>]
   \<and> (\<exists>units shared.
      units \<noteq> [] \<and> ascii ''aaaaaaa.'' = js_join [32] units
      \<and> (\<exists>all. splitIntoUnits 10 (ascii ''aaaaaaa. bbbbbbb.'') = Some all \<and> set units \<subseteq> set all)
      \<and> shared = js_join [32] (overlapUnits 9 units)
      \<and> suffix shared (ascii ''aaaaaaa.'') \<and> prefix shared (ascii ''aaaaaaa. bbbbbbb.'')
      \<and> int (length shared) \<le> 9
      \<and> (shared \<noteq> [] \<longleftrightarrow> int (length (last units)) \<le> 9))"
proof -
  have p: "(0 :: int) < 10" "(0 :: int) \<le> 9" by simp_all
  have l: "Suc 0 < length [\<lparr>id_chunk = ascii ''doc.txt-0-1700000000000'', sourceFile = ascii ''doc.txt'',
            content = ascii ''aaaaaaa.''\<rparr>,
           \<lparr>id_chunk = ascii ''doc.txt-1-1700000000000'', sourceFile = ascii ''doc.txt'',
            content = ascii ''aaaaaaa. bbbbbbb.''\<rparr>]" by simp
  have "\<exists>units shared.
      units \<noteq> [] \<and> ascii ''aaaaaaa.'' = js_join [32] units
      \<and> (\<exists>all. splitIntoUnits 10 (ascii ''aaaaaaa. bbbbbbb.'') = Some all \<and> set units \<subseteq> set all)
      \<and> shared = js_join [32] (overlapUnits 9 units)
      \<and> suffix shared (ascii ''aaaaaaa.'') \<and> prefix shared (ascii ''aaaaaaa. bbbbbbb.'')
      \<and> int (length shared) \<le> 9
      \<and> (shared \<noteq> [] \<longleftrightarrow> int (length (last units)) \<le> 9)"
    using chunkText_overlap [OF p eval_ab l] by simp
  with p eval_ab show ?thesis by blast
qed

text \<open>
  Claim C8 as stated fails: the text of one space is not empty, and \<open>chunkText\<close> returns
  the empty sequence for it.
\<close>

theorem chunkText_nonempty_counterexample:
  "[32 :: code_unit] \<noteq> [] \<and> chunkText clockA [32] (ascii ''doc.txt'') 800 100 = Some []"
  using eval_space by simp

text \<open>
  Claim C8, as amended. For every chunk size above 0 and every overlap: for a text that
  holds a character other than white space, \<open>chunkText\<close> returns, and what it returns is a
  non-empty sequence of chunks; for a text of white space only it returns the empty
  sequence.
\<close>

theorem chunkText_nonempty:
  assumes "0 < cs"
  shows "((\<exists>c\<in>set text. \<not> is_ws c) \<longrightarrow> (\<exists>r. chunkText now text src cs ov = Some r \<and> r \<noteq> []))
     \<and> ((\<forall>c\<in>set text. is_ws c) \<longrightarrow> chunkText now text src cs ov = Some [])"
proof (intro conjI impI)
  assume vis: "\<exists>c\<in>set text. \<not> is_ws c"
  from splitIntoUnits_spec [OF assms, of "text"] vis obtain units where
    u: "splitIntoUnits cs text = Some units" and ne: "units \<noteq> []"
    by blast
  have t: "text \<noteq> []" "js_trim text \<noteq> []"
    using vis by (auto simp: js_trim_Nil_iff)
  let ?st = "foldl (packStep now src cs ov) initialState units"
  have "currentChunkUnits ?st \<noteq> []"
    using ne by (rule pack_units_nonempty)
  then have "finish now src ?st \<noteq> []"
    by (simp add: finish_def pushChunk_def)
  then show "\<exists>r. chunkText now text src cs ov = Some r \<and> r \<noteq> []"
    using chunkText_units [OF t u] by simp
next
  assume "\<forall>c\<in>set text. is_ws c"
  then have "js_trim text = []"
    by (simp add: js_trim_Nil_iff)
  then show "chunkText now text src cs ov = Some []"
    by (simp add: chunkText_blank)
qed

theorem chunkText_nonempty_witness:
  "(0 :: int) < 10 \<and> \<not> is_ws 72
   \<and> (\<exists>r. chunkText clockA (ascii ''Hello. World.'') (ascii ''doc.txt'') 10 2 = Some r \<and> r \<noteq> [])
   \<and> is_ws 32 \<and> chunkText clockA [32] (ascii ''doc.txt'') 10 2 = Some []"
proof -
  have h: "\<exists>c\<in>set (ascii ''Hello. World.''). \<not> is_ws c"
    by (simp add: ascii_def is_ws_def)
  have p: "(0 :: int) < 10" by simp
  have "\<not> is_ws 72" by (simp add: is_ws_def)
  then show ?thesis
    using chunkText_nonempty [OF p, of "ascii ''Hello. World.''" clockA "ascii ''doc.txt''" 2] h
      chunkText_nonempty [OF p, of "[32]" clockA "ascii ''doc.txt''" 2]
    by simp
qed

end
